theory Spec2Isabelle
  imports Complex_Main "HOL-Library.Multiset"
begin

section \<open>Beam search decoding: hypotheses, scoring and the search driver\<close>

text \<open>
  A shallow embedding of \<^verbatim>\<open>src/beam_search.py\<close> and of the two places of
  \<^verbatim>\<open>src/decode_eval.py\<close> that the properties below are about.

  Conventions of the embedding.
  \<^item> Python lists are HOL lists; token ids are \<open>int\<close>.
  \<^item> Python floats and numpy float arrays are idealised: a finite float is a \<open>real\<close>
    and arithmetic on finite floats is exact real arithmetic (no rounding, no overflow).
    The one non-finite value the code can produce from finite inputs, the \<open>nan\<close> that
    numpy yields for \<open>0/0\<close>, is the constructor \<open>NaN\<close> of \<open>fval\<close>.
  \<^item> Every exception the code can raise is a value \<open>Inl e\<close> of \<open>py_error + 'a\<close>.
  \<^item> The module \<^verbatim>\<open>data\<close>, the vocabulary, the flags and the neural model are not part
    of the sources; they are parameters (the record \<open>env\<close>).
\<close>

subsection \<open>Errors and floating-point results\<close>

datatype py_error = IndexError | ValueError | TypeError | ZeroDivisionError

datatype fval = Num real | NaN

fun bind_err :: "py_error + 'a \<Rightarrow> ('a \<Rightarrow> py_error + 'b) \<Rightarrow> py_error + 'b" where
  "bind_err (Inl e) f = Inl e"
| "bind_err (Inr x) f = f x"

fun fsub :: "fval \<Rightarrow> fval \<Rightarrow> fval" where
  "fsub (Num a) (Num b) = Num (a - b)"
| "fsub _ _ = NaN"

subsection \<open>\<^verbatim>\<open>decode_eval.make_html_safe\<close>\<close>

text \<open>
  Python's \<^verbatim>\<open>str.replace(old, new)\<close> for a non-empty \<open>old\<close>: a new string in which
  the non-overlapping occurrences of \<open>old\<close>, found from the left, are replaced.
  Strings are immutable, the receiver is not changed.
\<close>

fun str_replace :: "string \<Rightarrow> string \<Rightarrow> string \<Rightarrow> string" where
  "str_replace old new [] = []"
| "str_replace old new (c # cs) =
     (if old \<noteq> [] \<and> take (length old) (c # cs) = old
      then new @ str_replace old new (drop (length old) (c # cs))
      else c # str_replace old new cs)"

text \<open>
  \<^verbatim>\<open>
  def make_html_safe(s):
      s.replace("<", "&lt;")
      s.replace(">", "&gt;")
      return s
  \<close>
  The two results of \<^verbatim>\<open>replace\<close> are computed and dropped.
\<close>

definition make_html_safe :: "string \<Rightarrow> string" where
  "make_html_safe s =
     (let r1 = str_replace ''<'' ''&lt;'' s;
          r2 = str_replace ''>'' ''&gt;'' s
      in s)"

subsection \<open>\<^verbatim>\<open>Hypothesis.repeated_n_gram_loss\<close>\<close>

text \<open>
  \<^verbatim>\<open>
  def repeated_n_gram_loss(self, disallowed_n=3):
      seen_n_grams = set()
      for i in range(len(self.tokens) - disallowed_n + 1):
          n_gram = tuple(self.tokens[i: i + disallowed_n])
          if n_gram in seen_n_grams:
              return 10. ** 6
          seen_n_grams.add(n_gram)
      return 0.
  \<close>
  It is a property, so \<open>disallowed_n\<close> is always 3. The slice \<open>tokens[i : i + n]\<close> is
  \<open>take n (drop i tokens)\<close>; the range is empty when the list has fewer than \<open>n\<close>
  tokens, which the truncating subtraction on \<open>nat\<close> gives as well.
\<close>

definition n_gram_at :: "nat \<Rightarrow> int list \<Rightarrow> nat \<Rightarrow> int list" where
  "n_gram_at n ts i = take n (drop i ts)"

fun n_gram_loop :: "nat \<Rightarrow> int list \<Rightarrow> nat list \<Rightarrow> int list set \<Rightarrow> real" where
  "n_gram_loop n ts [] seen = 0"
| "n_gram_loop n ts (i # is) seen =
     (if n_gram_at n ts i \<in> seen then 10 ^ 6
      else n_gram_loop n ts is (insert (n_gram_at n ts i) seen))"

definition repeated_n_gram_loss_n :: "nat \<Rightarrow> int list \<Rightarrow> real" where
  "repeated_n_gram_loss_n n ts = n_gram_loop n ts [0 ..< length ts + 1 - n] {}"

definition repeated_n_gram_loss :: "int list \<Rightarrow> real" where
  "repeated_n_gram_loss ts = repeated_n_gram_loss_n 3 ts"

text \<open>Two positions of the loop carry the same \<open>n\<close>-gram (as the loop cuts them).\<close>

definition has_repeated_n_gram :: "nat \<Rightarrow> int list \<Rightarrow> bool" where
  "has_repeated_n_gram n ts \<longleftrightarrow>
     (\<exists>i j. i < j \<and> j + n \<le> length ts \<and> n_gram_at n ts i = n_gram_at n ts j)"

text \<open>The property in the words of the specification, on the tokens themselves: some
  contiguous 3-token subsequence occurs at two different positions \<open>i < j\<close>, that is,
  the three tokens from \<open>i\<close> on equal the three tokens from \<open>j\<close> on.\<close>

definition repeated_3_gram :: "int list \<Rightarrow> bool" where
  "repeated_3_gram ts \<longleftrightarrow>
     (\<exists>i j. i < j \<and> j + 3 \<le> length ts
            \<and> ts ! i = ts ! j \<and> ts ! (i + 1) = ts ! (j + 1) \<and> ts ! (i + 2) = ts ! (j + 2))"

subsection \<open>The class \<^verbatim>\<open>Hypothesis\<close>\<close>

text \<open>
  The decoder state is opaque (the type variable \<open>'s\<close>). An attention distribution
  and the coverage vector are one-dimensional numpy arrays, here lists of reals.
\<close>

record 's hypothesis =
  tokens :: "int list"
  log_probs :: "real list"
  state :: 's
  attn_dists :: "real list list"
  p_gens :: "real list"
  coverage :: "real list"

text \<open>
  What one call of the model's \<^verbatim>\<open>decode_onestep\<close> returns: for each hypothesis of the
  beam a row of candidate token ids and a row of their log-probabilities (two numpy
  matrices), a new decoder state, an attention distribution, a generation probability
  and a new coverage vector.
\<close>

record 's step_out =
  topk_ids :: "int list list"
  topk_log_probs :: "real list list"
  new_states :: "'s list"
  step_attn_dists :: "real list list"
  step_p_gens :: "real list"
  new_coverage :: "real list list"

text \<open>
  Everything \<^verbatim>\<open>run_beam_search\<close> reads from outside the two source files: the
  constants of \<^verbatim>\<open>data\<close>, the vocabulary's \<^verbatim>\<open>word2id\<close>, the flags, the decoder state
  returned by \<^verbatim>\<open>model.run_encoder\<close>, the attention length
  \<^verbatim>\<open>batch.enc_batch.shape[1]\<close>, the dictionary \<^verbatim>\<open>batch.article_id_to_word_ids[0]\<close> and
  the model's \<^verbatim>\<open>decode_onestep\<close> for the fixed session, batch and encoder states, as a
  function of the latest tokens, the decoder states and the coverage vectors.
\<close>

record 's env =
  N_FREE_TOKENS :: int
  START_DECODING :: string
  STOP_DECODING :: string
  word2id :: "string \<Rightarrow> int"
  beam_size :: nat
  max_dec_steps :: nat
  min_dec_steps :: nat
  smart_decode :: bool
  dec_in_state :: 's
  attn_length :: nat
  article_id_to_word_ids :: "int \<Rightarrow> int option"
  decode_onestep :: "int list \<Rightarrow> 's list \<Rightarrow> real list list \<Rightarrow> 's step_out"

text \<open>
  \<^verbatim>\<open>__init__\<close> stores its six arguments and checks nothing. It is given the result
  type of a call that may raise, so that "the constructor rejects this input" can be
  stated at all.
\<close>

definition Hypothesis_init ::
  "int list \<Rightarrow> real list \<Rightarrow> 's \<Rightarrow> real list list \<Rightarrow> real list \<Rightarrow> real list
     \<Rightarrow> py_error + 's hypothesis" where
  "Hypothesis_init toks lps st ads pgs cov =
     Inr \<lparr>tokens = toks, log_probs = lps, state = st, attn_dists = ads,
          p_gens = pgs, coverage = cov\<rparr>"

text \<open>
  \<^verbatim>\<open>
  def extend(self, token, log_prob, state, attn_dist, p_gen, coverage):
      return Hypothesis(tokens = self.tokens + [token],
                        log_probs = self.log_probs + [log_prob],
                        state = state,
                        attn_dists = self.attn_dists + [attn_dist],
                        p_gens = self.p_gens + [p_gen],
                        coverage = coverage)
  \<close>
  \<open>xs + [x]\<close> builds a new list.
\<close>

definition extend ::
  "'s hypothesis \<Rightarrow> int \<Rightarrow> real \<Rightarrow> 's \<Rightarrow> real list \<Rightarrow> real \<Rightarrow> real list
     \<Rightarrow> py_error + 's hypothesis" where
  "extend self token log_prob st attn_dist p_gen cov =
     Hypothesis_init (tokens self @ [token]) (log_probs self @ [log_prob]) st
       (attn_dists self @ [attn_dist]) (p_gens self @ [p_gen]) cov"

text \<open>
  Hypotheses are Python objects, reached by reference. To state what a call does to the
  objects that exist already, the objects live in a store: a list of the objects
  allocated so far, an object's reference being its index. \<open>extend\<close> reads the object
  at \<open>self\<close>, allocates the new object behind all others and returns its reference;
  no statement of \<open>extend\<close> writes to an existing object.
\<close>

type_synonym 's store = "'s hypothesis list"

definition extend_in_store ::
  "'s store \<Rightarrow> nat \<Rightarrow> int \<Rightarrow> real \<Rightarrow> 's \<Rightarrow> real list \<Rightarrow> real \<Rightarrow> real list
     \<Rightarrow> py_error + ('s store \<times> nat)" where
  "extend_in_store objs self token log_prob st attn_dist p_gen cov =
     bind_err (extend (objs ! self) token log_prob st attn_dist p_gen cov)
       (\<lambda>child. Inr (objs @ [child], length objs))"

text \<open>\<^verbatim>\<open>latest_token\<close> is \<^verbatim>\<open>self.tokens[-1]\<close>, an IndexError on the empty list.\<close>

definition latest_token :: "'s hypothesis \<Rightarrow> py_error + int" where
  "latest_token h = (if tokens h = [] then Inl IndexError else Inr (last (tokens h)))"

text \<open>
  \<^verbatim>\<open>
  def _has_unknown_token(self, stop_token_id):
      if any(token < data.N_FREE_TOKENS for token in self.tokens[1:-1]):
          return True
      if self.latest_token < data.N_FREE_TOKENS and self.latest_token != stop_token_id:
          return True
      return False
  \<close>
  \<^verbatim>\<open>data.N_FREE_TOKENS\<close> is not in the sources: it is the parameter \<open>n_free\<close>.
  The slice \<open>tokens[1:-1]\<close> is \<open>butlast (tl tokens)\<close> for a list of any length.
\<close>

definition has_unknown_token :: "int \<Rightarrow> 's hypothesis \<Rightarrow> int \<Rightarrow> py_error + bool" where
  "has_unknown_token n_free h stop_token_id =
     (if list_ex (\<lambda>token. token < n_free) (butlast (tl (tokens h))) then Inr True
      else bind_err (latest_token h) (\<lambda>t.
        if t < n_free \<and> t \<noteq> stop_token_id then Inr True else Inr False))"

text \<open>
  \<^verbatim>\<open>
  def avg_log_prob(self, stop_token_id):
      if self._has_unknown_token(stop_token_id):
          return -10 ** 6
      return sum(self.log_probs) / len(self.tokens)
  \<close>
\<close>

definition avg_log_prob :: "int \<Rightarrow> 's hypothesis \<Rightarrow> int \<Rightarrow> py_error + fval" where
  "avg_log_prob n_free h stop_token_id =
     bind_err (has_unknown_token n_free h stop_token_id) (\<lambda>unk.
       if unk then Inr (Num (- (10 ^ 6)))
       else if length (tokens h) = 0 then Inl ZeroDivisionError
       else Inr (Num (sum_list (log_probs h) / real (length (tokens h)))))"

text \<open>The condition of \<open>has_unknown_token\<close> in the words of the specification: some
  interior token (positions \<open>1 .. len - 2\<close>) is below the threshold, or the final token
  is below it and is not the stop token.\<close>

definition unknown_token_spec :: "int \<Rightarrow> int list \<Rightarrow> int \<Rightarrow> bool" where
  "unknown_token_spec n_free ts stop_token_id \<longleftrightarrow>
     (\<exists>i. 1 \<le> i \<and> i + 1 < length ts \<and> ts ! i < n_free)
     \<or> (last ts < n_free \<and> last ts \<noteq> stop_token_id)"

subsection \<open>\<^verbatim>\<open>Hypothesis.cov_loss\<close>\<close>

text \<open>
  numpy on one-dimensional arrays: \<^verbatim>\<open>np.minimum(a, b)\<close> broadcasts an array of length 1
  against the other and raises ValueError on any other mismatch of lengths; the in-place
  \<^verbatim>\<open>coverage += a\<close> keeps the length of \<open>coverage\<close>, so only \<open>a\<close> may be broadcast.
\<close>

definition np_minimum :: "real list \<Rightarrow> real list \<Rightarrow> py_error + real list" where
  "np_minimum a b =
     (if length a = length b then Inr (map2 min a b)
      else if length a = 1 then Inr (map (\<lambda>y. min (hd a) y) b)
      else if length b = 1 then Inr (map (\<lambda>x. min x (hd b)) a)
      else Inl ValueError)"

definition np_iadd :: "real list \<Rightarrow> real list \<Rightarrow> py_error + real list" where
  "np_iadd cov a =
     (if length a = length cov then Inr (map2 (+) cov a)
      else if length a = 1 then Inr (map (\<lambda>c. c + hd a) cov)
      else Inl ValueError)"

text \<open>
  \<^verbatim>\<open>
  def cov_loss(self):
      coverage = np.zeros_like(self.attn_dists[0])
      covlosses = []
      for a in self.attn_dists:
          covloss = np.minimum(a, coverage).sum()
          covlosses.append(covloss)
          coverage += a
      return sum(covlosses) / len(covlosses)
  \<close>
\<close>

fun cov_loss_loop :: "real list list \<Rightarrow> real list \<Rightarrow> real list \<Rightarrow> py_error + real list" where
  "cov_loss_loop [] cov covlosses = Inr covlosses"
| "cov_loss_loop (a # as) cov covlosses =
     bind_err (np_minimum a cov) (\<lambda>m.
     bind_err (np_iadd cov a) (\<lambda>cov'.
       cov_loss_loop as cov' (covlosses @ [sum_list m])))"

definition cov_loss :: "'s hypothesis \<Rightarrow> py_error + real" where
  "cov_loss h =
     (case attn_dists h of
        [] \<Rightarrow> Inl IndexError
      | a0 # _ \<Rightarrow>
          bind_err (cov_loss_loop (attn_dists h) (replicate (length a0) 0) []) (\<lambda>covlosses.
            if length covlosses = 0 then Inl ZeroDivisionError
            else Inr (sum_list covlosses / real (length covlosses))))"

subsection \<open>\<^verbatim>\<open>Hypothesis._smart_avg_log_prob\<close>\<close>

text \<open>Arithmetic on float results: anything with a \<open>nan\<close> operand is \<open>nan\<close>.\<close>

fun fadd :: "fval \<Rightarrow> fval \<Rightarrow> fval" where
  "fadd (Num a) (Num b) = Num (a + b)"
| "fadd _ _ = NaN"

fun fmul :: "fval \<Rightarrow> fval \<Rightarrow> fval" where
  "fmul (Num a) (Num b) = Num (a * b)"
| "fmul _ _ = NaN"

fun fsum :: "fval list \<Rightarrow> fval" where
  "fsum [] = Num 0"
| "fsum (x # xs) = fadd x (fsum xs)"

text \<open>
  \<^verbatim>\<open>
  def _smart_avg_log_prob(self, start_sent_ids, stopword_ids, pronoun_ids):
      sentence_start_weights = np.zeros((len(self.tokens),), dtype=np.float32)
      log_probs = np.array(self.log_probs)
      for i, token in enumerate(self.tokens):
          if token in start_sent_ids:
              for j in range(i + 1, min(len(self.tokens), i + 5)):
                  if self.tokens[j] not in stopword_ids:
                      sentence_start_weights[j] = 1. / (j - i + 5)
          if token in pronoun_ids:
              log_probs[i] -= .8
      sentence_start_weights /= sentence_start_weights.sum()
      sentence_start_log_probs = sentence_start_weights.dot(log_probs)
      return .75 * log_probs.mean() + .25 * sentence_start_log_probs
  \<close>
  \<open>window_loop\<close> is the inner loop over \<open>j\<close>, \<open>smart_loop\<close> the outer loop over \<open>i\<close>
  with the two arrays as its state. \<open>log_probs[i]\<close> raises IndexError when the list of
  log-probs is shorter than the list of tokens.
\<close>

fun window_loop :: "int set \<Rightarrow> int list \<Rightarrow> nat \<Rightarrow> nat list \<Rightarrow> real list \<Rightarrow> real list" where
  "window_loop stopword_ids ts i [] w = w"
| "window_loop stopword_ids ts i (j # js) w =
     window_loop stopword_ids ts i js
       (if ts ! j \<notin> stopword_ids then w[j := 1 / real (j - i + 5)] else w)"

fun smart_loop ::
  "int set \<Rightarrow> int set \<Rightarrow> int set \<Rightarrow> int list \<Rightarrow> nat list \<Rightarrow> real list \<Rightarrow> real list
     \<Rightarrow> py_error + (real list \<times> real list)" where
  "smart_loop start_sent_ids stopword_ids pronoun_ids ts [] w lp = Inr (w, lp)"
| "smart_loop start_sent_ids stopword_ids pronoun_ids ts (i # is) w lp =
     (let w' = (if ts ! i \<in> start_sent_ids
                then window_loop stopword_ids ts i [i + 1 ..< min (length ts) (i + 5)] w
                else w)
      in if ts ! i \<in> pronoun_ids
         then (if i < length lp
               then smart_loop start_sent_ids stopword_ids pronoun_ids ts is w'
                      (lp[i := lp ! i - 8 / 10])
               else Inl IndexError)
         else smart_loop start_sent_ids stopword_ids pronoun_ids ts is w' lp)"

text \<open>
  The in-place division by the sum. numpy does not raise on a division by zero: it
  warns and stores \<open>nan\<close> for \<open>0/0\<close>. Every weight is 0 or \<open>1 / (j - i + 5) > 0\<close>, so a
  zero sum means that every weight is 0 and every quotient is \<open>0/0\<close>. The dot product
  raises ValueError when the two arrays differ in length; the mean of an empty array
  is \<open>nan\<close>.
\<close>

definition np_normalize :: "real list \<Rightarrow> fval list" where
  "np_normalize w = (let s = sum_list w in map (\<lambda>x. if s = 0 then NaN else Num (x / s)) w)"

definition np_dot :: "fval list \<Rightarrow> real list \<Rightarrow> py_error + fval" where
  "np_dot a b =
     (if length a \<noteq> length b then Inl ValueError
      else Inr (fsum (map2 (\<lambda>x y. fmul x (Num y)) a b)))"

definition np_mean :: "real list \<Rightarrow> fval" where
  "np_mean xs = (if xs = [] then NaN else Num (sum_list xs / real (length xs)))"

definition smart_avg_log_prob ::
  "int set \<Rightarrow> int set \<Rightarrow> int set \<Rightarrow> 's hypothesis \<Rightarrow> py_error + fval" where
  "smart_avg_log_prob start_sent_ids stopword_ids pronoun_ids h =
     bind_err (smart_loop start_sent_ids stopword_ids pronoun_ids (tokens h)
                 [0 ..< length (tokens h)] (replicate (length (tokens h)) 0) (log_probs h))
       (\<lambda>(w, lp).
          bind_err (np_dot (np_normalize w) lp) (\<lambda>sentence_start_log_probs.
            Inr (fadd (fmul (Num (75 / 100)) (np_mean lp))
                      (fmul (Num (25 / 100)) sentence_start_log_probs))))"

text \<open>
  The computation in the words of the specification. For a position \<open>j\<close>, the sentence
  starts whose window covers \<open>j\<close> are the positions \<open>i\<close> with a token in
  \<open>start_sent_ids\<close> and \<open>i + 1 \<le> j < min len (i + 5)\<close>; the weight of \<open>j\<close> is 0 when
  its token is a stopword or no window covers it, and \<open>1 / (j - i + 5)\<close> for the last
  such \<open>i\<close> otherwise (a later window overwrites an earlier one).
\<close>

definition sentence_starts_for :: "int set \<Rightarrow> int list \<Rightarrow> nat \<Rightarrow> nat list" where
  "sentence_starts_for start_sent_ids ts j =
     filter (\<lambda>i. ts ! i \<in> start_sent_ids \<and> i + 1 \<le> j \<and> j < min (length ts) (i + 5))
       [0 ..< length ts]"

definition spec_weight :: "int set \<Rightarrow> int set \<Rightarrow> int list \<Rightarrow> nat \<Rightarrow> real" where
  "spec_weight start_sent_ids stopword_ids ts j =
     (if ts ! j \<in> stopword_ids \<or> sentence_starts_for start_sent_ids ts j = [] then 0
      else 1 / real (j - last (sentence_starts_for start_sent_ids ts j) + 5))"

definition spec_weights :: "int set \<Rightarrow> int set \<Rightarrow> int list \<Rightarrow> real list" where
  "spec_weights start_sent_ids stopword_ids ts =
     map (spec_weight start_sent_ids stopword_ids ts) [0 ..< length ts]"

definition working_log_probs :: "int set \<Rightarrow> int list \<Rightarrow> real list \<Rightarrow> real list" where
  "working_log_probs pronoun_ids ts lp =
     map (\<lambda>i. if ts ! i \<in> pronoun_ids then lp ! i - 8 / 10 else lp ! i) [0 ..< length lp]"

definition normalized :: "real list \<Rightarrow> real list" where
  "normalized w = map (\<lambda>x. x / sum_list w) w"

definition dot :: "real list \<Rightarrow> real list \<Rightarrow> real" where
  "dot a b = sum_list (map2 (*) a b)"

definition mean :: "real list \<Rightarrow> real" where
  "mean xs = sum_list xs / real (length xs)"

definition smart_avg_spec :: "int set \<Rightarrow> int set \<Rightarrow> int set \<Rightarrow> int list \<Rightarrow> real list \<Rightarrow> real" where
  "smart_avg_spec start_sent_ids stopword_ids pronoun_ids ts lp =
     75 / 100 * mean (working_log_probs pronoun_ids ts lp)
     + 25 / 100 * dot (normalized (spec_weights start_sent_ids stopword_ids ts))
                     (working_log_probs pronoun_ids ts lp)"

subsection \<open>\<^verbatim>\<open>Hypothesis.score\<close>\<close>

text \<open>
  \<^verbatim>\<open>
  def score(self, stop_token_id, start_sent_ids, stopword_ids, pronoun_ids):
      if self._has_unknown_token(stop_token_id):
          return -10 ** 6
      avg_log_prob = self._smart_avg_log_prob(start_sent_ids, stopword_ids, pronoun_ids)
      return avg_log_prob - self.repeated_n_gram_loss - self.cov_loss
  \<close>
\<close>

definition score ::
  "int \<Rightarrow> 's hypothesis \<Rightarrow> int \<Rightarrow> int set \<Rightarrow> int set \<Rightarrow> int set \<Rightarrow> py_error + fval" where
  "score n_free h stop_token_id start_sent_ids stopword_ids pronoun_ids =
     bind_err (has_unknown_token n_free h stop_token_id) (\<lambda>unk.
       if unk then Inr (Num (- (10 ^ 6)))
       else bind_err (smart_avg_log_prob start_sent_ids stopword_ids pronoun_ids h) (\<lambda>avg.
            bind_err (cov_loss h) (\<lambda>cl.
              Inr (fsub (fsub avg (Num (repeated_n_gram_loss (tokens h)))) (Num cl)))))"

subsection \<open>\<^verbatim>\<open>sort_hyps\<close>\<close>

text \<open>
  \<^verbatim>\<open>
  def sort_hyps(hyps, stop_token_id, start_sent_ids, stopword_ids, pronoun_ids):
      if FLAGS.smart_decode:
          score_func = lambda h: h.score(stop_token_id, start_sent_ids, stopword_ids, pronoun_ids)
      else:
          score_func = lambda h: h.avg_log_prob(stop_token_id)
      return sorted(hyps, key=score_func, reverse=True)
  \<close>
  Python's \<^verbatim>\<open>sorted(xs, key=f, reverse=True)\<close> calls \<open>f\<close> once on every element, in
  order (an exception of \<open>f\<close> ends the call), reverses the list of (key, element)
  pairs, sorts it stably in ascending order of the keys, comparing keys with \<open><\<close> only,
  and reverses the result. A comparison with \<open>nan\<close> is false.

  The ascending sort is CPython's \<^verbatim>\<open>listsort\<close> as it runs on a list of fewer than 64
  elements: \<^verbatim>\<open>count_run\<close> finds the longest run at the front that is ascending
  (no element \<open><\<close> its predecessor) or strictly descending (each element \<open><\<close> its
  predecessor; the run is then reversed), and \<^verbatim>\<open>binarysort\<close> inserts the remaining
  elements one by one by binary search. A list of 64 or more elements is cut into such
  runs which are merged; wherever \<open><\<close> orders the keys totally (no \<open>nan\<close>) the outcome
  is the one stable sort, which is what this function computes there as well (lemma
  \<open>listsort_sort_key\<close>). So the function is the program on every list without a
  \<open>nan\<close> key and on every list of fewer than 64 elements.
\<close>

fun fval_lt :: "fval \<Rightarrow> fval \<Rightarrow> bool" where
  "fval_lt (Num a) (Num b) \<longleftrightarrow> a < b"
| "fval_lt _ _ \<longleftrightarrow> False"

fun map_err :: "('a \<Rightarrow> py_error + 'b) \<Rightarrow> 'a list \<Rightarrow> py_error + 'b list" where
  "map_err f [] = Inr []"
| "map_err f (x # xs) =
     bind_err (f x) (\<lambda>y. bind_err (map_err f xs) (\<lambda>ys. Inr (y # ys)))"

fun run_desc :: "fval \<times> 'a \<Rightarrow> (fval \<times> 'a) list \<Rightarrow> nat" where
  "run_desc p [] = 0"
| "run_desc p (q # qs) = (if fval_lt (fst q) (fst p) then Suc (run_desc q qs) else 0)"

fun run_asc :: "fval \<times> 'a \<Rightarrow> (fval \<times> 'a) list \<Rightarrow> nat" where
  "run_asc p [] = 0"
| "run_asc p (q # qs) = (if fval_lt (fst q) (fst p) then 0 else Suc (run_asc q qs))"

fun count_run :: "(fval \<times> 'a) list \<Rightarrow> nat \<times> bool" where
  "count_run [] = (0, False)"
| "count_run [p] = (1, False)"
| "count_run (p # q # qs) =
     (if fval_lt (fst q) (fst p) then (2 + run_desc q qs, True)
      else (2 + run_asc q qs, False))"

text \<open>
  \<open>bisect\<close> is the binary search of \<^verbatim>\<open>binarysort\<close> for the place of \<open>pivot\<close> in the sorted
  part \<open>xs[0:r]\<close>: \<^verbatim>\<open>do { p = l + ((r - l) >> 1); if pivot < *p: r = p else l = p + 1 }
  while (l < r)\<close>, entered with \<open>l < r\<close>. \<open>binarysort\<close> inserts each remaining
  element at that place.
\<close>

function bisect :: "fval \<Rightarrow> (fval \<times> 'a) list \<Rightarrow> nat \<Rightarrow> nat \<Rightarrow> nat" where
  "bisect pivot xs l r =
     (if l < r
      then (let p = l + (r - l) div 2
            in if fval_lt pivot (fst (xs ! p)) then bisect pivot xs l p
               else bisect pivot xs (p + 1) r)
      else l)"
  by pat_completeness auto
termination
  by (relation "measure (\<lambda>(pivot, xs, l, r). r - l)") auto

declare bisect.simps [simp del]

fun binarysort :: "(fval \<times> 'a) list \<Rightarrow> (fval \<times> 'a) list \<Rightarrow> (fval \<times> 'a) list" where
  "binarysort front [] = front"
| "binarysort front (pivot # rest) =
     (let l = bisect (fst pivot) front 0 (length front)
      in binarysort (take l front @ pivot # drop l front) rest)"

definition listsort :: "(fval \<times> 'a) list \<Rightarrow> (fval \<times> 'a) list" where
  "listsort ps =
     (if length ps < 2 then ps
      else (let (n, descending) = count_run ps;
                run = (if descending then rev (take n ps) else take n ps)
            in binarysort run (drop n ps)))"

definition py_sorted_reverse :: "('a \<Rightarrow> py_error + fval) \<Rightarrow> 'a list \<Rightarrow> py_error + 'a list" where
  "py_sorted_reverse key xs =
     bind_err (map_err key xs) (\<lambda>ks.
       Inr (map snd (rev (listsort (rev (zip ks xs))))))"

definition score_func ::
  "'s env \<Rightarrow> int \<Rightarrow> int set \<Rightarrow> int set \<Rightarrow> int set \<Rightarrow> 's hypothesis \<Rightarrow> py_error + fval" where
  "score_func env stop_token_id start_sent_ids stopword_ids pronoun_ids =
     (if smart_decode env
      then (\<lambda>h. score (N_FREE_TOKENS env) h stop_token_id start_sent_ids stopword_ids pronoun_ids)
      else (\<lambda>h. avg_log_prob (N_FREE_TOKENS env) h stop_token_id))"

definition sort_hyps ::
  "'s env \<Rightarrow> 's hypothesis list \<Rightarrow> int \<Rightarrow> int set \<Rightarrow> int set \<Rightarrow> int set
     \<Rightarrow> py_error + 's hypothesis list" where
  "sort_hyps env hyps stop_token_id start_sent_ids stopword_ids pronoun_ids =
     py_sorted_reverse
       (score_func env stop_token_id start_sent_ids stopword_ids pronoun_ids) hyps"

text \<open>The number a score stands for (0 for \<open>nan\<close> and for an exception, where no
  property below reads it).\<close>

definition score_value :: "py_error + fval \<Rightarrow> real" where
  "score_value r = (case r of Inr (Num x) \<Rightarrow> x | _ \<Rightarrow> 0)"

definition key_value :: "fval \<times> 'a \<Rightarrow> real" where
  "key_value q = score_value (Inr (fst q))"

subsection \<open>\<^verbatim>\<open>run_beam_search\<close>\<close>

text \<open>Indexing a list, and a numpy matrix by \<open>[i, j]\<close>, out of range raises IndexError.\<close>

definition py_nth :: "'a list \<Rightarrow> nat \<Rightarrow> py_error + 'a" where
  "py_nth xs i = (if i < length xs then Inr (xs ! i) else Inl IndexError)"

definition np_nth2 :: "'a list list \<Rightarrow> nat \<Rightarrow> nat \<Rightarrow> py_error + 'a" where
  "np_nth2 m i j = bind_err (py_nth m i) (\<lambda>row. py_nth row j)"

text \<open>
  \<^verbatim>\<open>
  all_hyps = []
  num_orig_hyps = 1 if steps == 0 else len(hyps)
  for i in xrange(num_orig_hyps):
      h, new_state, attn_dist, p_gen, new_coverage_i = \
          hyps[i], new_states[i], attn_dists[i], p_gens[i], new_coverage[i]
      for j in xrange(FLAGS.beam_size * 2):
          new_hyp = h.extend(token=topk_ids[i, j], log_prob=topk_log_probs[i, j],
                             state=new_state, attn_dist=attn_dist, p_gen=p_gen,
                             coverage=new_coverage_i)
          all_hyps.append(new_hyp)
  \<close>
  \<open>extend_loop\<close> is the loop over \<open>j\<close>, \<open>expand_loop\<close> the loop over \<open>i\<close>.
\<close>

fun extend_loop ::
  "'s step_out \<Rightarrow> nat \<Rightarrow> 's hypothesis \<Rightarrow> 's \<Rightarrow> real list \<Rightarrow> real \<Rightarrow> real list
     \<Rightarrow> nat list \<Rightarrow> 's hypothesis list \<Rightarrow> py_error + 's hypothesis list" where
  "extend_loop out i h new_state attn_dist p_gen new_coverage_i [] all_hyps = Inr all_hyps"
| "extend_loop out i h new_state attn_dist p_gen new_coverage_i (j # js) all_hyps =
     bind_err (np_nth2 (topk_ids out) i j) (\<lambda>token.
     bind_err (np_nth2 (topk_log_probs out) i j) (\<lambda>log_prob.
     bind_err (extend h token log_prob new_state attn_dist p_gen new_coverage_i) (\<lambda>new_hyp.
       extend_loop out i h new_state attn_dist p_gen new_coverage_i js
         (all_hyps @ [new_hyp]))))"

fun expand_loop ::
  "nat \<Rightarrow> 's step_out \<Rightarrow> 's hypothesis list \<Rightarrow> nat list \<Rightarrow> 's hypothesis list
     \<Rightarrow> py_error + 's hypothesis list" where
  "expand_loop bs out hyps [] all_hyps = Inr all_hyps"
| "expand_loop bs out hyps (i # is) all_hyps =
     bind_err (py_nth hyps i) (\<lambda>h.
     bind_err (py_nth (new_states out) i) (\<lambda>new_state.
     bind_err (py_nth (step_attn_dists out) i) (\<lambda>attn_dist.
     bind_err (py_nth (step_p_gens out) i) (\<lambda>p_gen.
     bind_err (py_nth (new_coverage out) i) (\<lambda>new_coverage_i.
     bind_err (extend_loop out i h new_state attn_dist p_gen new_coverage_i
                 [0 ..< bs * 2] all_hyps) (\<lambda>all_hyps'.
       expand_loop bs out hyps is all_hyps'))))))"

text \<open>
  \<^verbatim>\<open>
  hyps = []
  for h in sort_hyps(all_hyps, ...):
      if h.latest_token == vocab.word2id(data.STOP_DECODING, None):
          if steps >= FLAGS.min_dec_steps:
              results.append(h)
      elif h.latest_token >= data.N_FREE_TOKENS:
          hyps.append(h)
      if len(hyps) == FLAGS.beam_size or len(results) == 4 * FLAGS.beam_size:
          break
  \<close>
\<close>

fun collect_loop ::
  "'s env \<Rightarrow> nat \<Rightarrow> 's hypothesis list \<Rightarrow> 's hypothesis list \<Rightarrow> 's hypothesis list
     \<Rightarrow> py_error + ('s hypothesis list \<times> 's hypothesis list)" where
  "collect_loop env steps [] hyps results = Inr (hyps, results)"
| "collect_loop env steps (h # hs) hyps results =
     bind_err (latest_token h) (\<lambda>t.
       let (hyps', results') =
             (if t = word2id env (STOP_DECODING env)
              then (if min_dec_steps env \<le> steps then (hyps, results @ [h])
                    else (hyps, results))
              else if N_FREE_TOKENS env \<le> t then (hyps @ [h], results)
              else (hyps, results))
       in if length hyps' = beam_size env \<or> length results' = 4 * beam_size env
          then Inr (hyps', results')
          else collect_loop env steps hs hyps' results')"

text \<open>
  \<^verbatim>\<open>
  steps = 0
  while steps < FLAGS.max_dec_steps and len(results) < 4 * FLAGS.beam_size:
      latest_tokens = [h.latest_token for h in hyps]
      latest_tokens = [batch.article_id_to_word_ids[0].get(t, t) for t in latest_tokens]
      states = [h.state for h in hyps]
      prev_coverage = [h.coverage for h in hyps]
      topk_ids, topk_log_probs, new_states, attn_dists, p_gens, new_coverage = \
          model.decode_onestep(...)
      ... (the two loops above) ...
      steps += 1
  \<close>
  The loop ends after at most \<open>max_dec_steps\<close> rounds: the function is total.
\<close>

function beam_loop ::
  "'s env \<Rightarrow> int \<Rightarrow> int set \<Rightarrow> int set \<Rightarrow> int set \<Rightarrow> nat
     \<Rightarrow> 's hypothesis list \<Rightarrow> 's hypothesis list
     \<Rightarrow> py_error + ('s hypothesis list \<times> 's hypothesis list)" where
  "beam_loop env stop_token_id start_sent_ids stopword_ids pronoun_ids steps hyps results =
     (if steps < max_dec_steps env \<and> length results < 4 * beam_size env
      then
        bind_err (map_err latest_token hyps) (\<lambda>latest_tokens.
          let latest_tokens' =
                map (\<lambda>t. case article_id_to_word_ids env t of None \<Rightarrow> t | Some u \<Rightarrow> u)
                  latest_tokens;
              states = map state hyps;
              prev_coverage = map coverage hyps;
              out = decode_onestep env latest_tokens' states prev_coverage;
              num_orig_hyps = (if steps = 0 then 1 else length hyps)
          in
          bind_err (expand_loop (beam_size env) out hyps [0 ..< num_orig_hyps] [])
            (\<lambda>all_hyps.
          bind_err (sort_hyps env all_hyps stop_token_id start_sent_ids stopword_ids
                      pronoun_ids) (\<lambda>sorted_hyps.
          bind_err (collect_loop env steps sorted_hyps [] results) (\<lambda>(hyps', results').
            beam_loop env stop_token_id start_sent_ids stopword_ids pronoun_ids
              (steps + 1) hyps' results'))))
      else Inr (hyps, results))"
  by pat_completeness auto
termination
  by (relation "measure (\<lambda>(env, stop_token_id, start_sent_ids, stopword_ids, pronoun_ids,
                            steps, hyps, results). max_dec_steps env - steps)") auto

declare beam_loop.simps [simp del]

text \<open>
  What \<^verbatim>\<open>run_beam_search\<close> hands to its caller is a Python value; the caller in
  \<^verbatim>\<open>decode_eval.py\<close> unpacks it into two names, which needs a sequence of two elements
  (ValueError for a sequence of another length, TypeError for an object that is not
  iterable, as a Hypothesis is).
\<close>

datatype 's py_value = PyHypothesis "'s hypothesis" | PyTuple "'s py_value list" | PyFloat fval

text \<open>
  \<^verbatim>\<open>
  def run_beam_search(sess, model, vocab, batch):
      enc_states, dec_in_state = model.run_encoder(sess, batch)
      hyps = [Hypothesis(tokens=[vocab.word2id(data.START_DECODING, None)],
                         log_probs=[0.0], state=dec_in_state, attn_dists=[], p_gens=[],
                         coverage=np.zeros([batch.enc_batch.shape[1]])
                         ) for _ in xrange(FLAGS.beam_size)]
      results = []
      stop_token_id = vocab.word2id(data.STOP_DECODING, None)
      start_sent_ids = {vocab.word2id(word, None) for word in (data.START_DECODING, '.')}
      stopword_ids = {vocab.word2id(word, None) for word in (
          'the', 'a', 'an', 'it', 'its', 'this', 'that', 'these', 'those')}
      pronoun_ids = {vocab.word2id(word, None) for word in (
          'he', 'she', 'him', 'her', 'i', 'we')}
      ... (the while loop) ...
      if len(results)==0:
          results = hyps
      hyps_sorted = sort_hyps(results, stop_token_id, start_sent_ids, stopword_ids, pronoun_ids)
      return hyps_sorted[0]
  \<close>
\<close>

definition run_beam_search :: "'s env \<Rightarrow> py_error + 's py_value" where
  "run_beam_search env =
     bind_err (map_err (\<lambda>_. Hypothesis_init [word2id env (START_DECODING env)] [0]
                              (dec_in_state env) [] [] (replicate (attn_length env) 0))
                 [0 ..< beam_size env]) (\<lambda>hyps.
       let results = [];
           stop_token_id = word2id env (STOP_DECODING env);
           start_sent_ids = word2id env ` set [START_DECODING env, ''.''];
           stopword_ids = word2id env ` set [''the'', ''a'', ''an'', ''it'', ''its'', ''this'',
                                             ''that'', ''these'', ''those''];
           pronoun_ids = word2id env ` set [''he'', ''she'', ''him'', ''her'', ''i'', ''we'']
       in
       bind_err (beam_loop env stop_token_id start_sent_ids stopword_ids pronoun_ids 0
                   hyps results) (\<lambda>(hyps, results).
         let results = (if length results = 0 then hyps else results) in
         bind_err (sort_hyps env results stop_token_id start_sent_ids stopword_ids
                     pronoun_ids) (\<lambda>hyps_sorted.
         bind_err (py_nth hyps_sorted 0) (\<lambda>best. Inr (PyHypothesis best)))))"

text \<open>
  \<^verbatim>\<open>best_hyp, best_score = beam_search.run_beam_search(...)\<close> in
  \<^verbatim>\<open>BeamSearchDecoder.decode\<close>: the unpacking of the returned value.
\<close>

fun unpack_pair :: "'s py_value \<Rightarrow> py_error + ('s py_value \<times> 's py_value)" where
  "unpack_pair (PyTuple [a, b]) = Inr (a, b)"
| "unpack_pair (PyTuple _) = Inl ValueError"
| "unpack_pair _ = Inl TypeError"

subsection \<open>Example inputs\<close>

text \<open>
  A vocabulary with the four reserved ids below \<open>N_FREE_TOKENS = 4\<close>, a model whose
  \<^verbatim>\<open>decode_onestep\<close> proposes the same two candidate tokens \<open>cand\<close> for every hypothesis
  at every step, with beam size 1, and hypotheses with given tokens and log-probs.
\<close>

definition vocab0 :: "string \<Rightarrow> int" where
  "vocab0 w = (if w = ''[UNK]'' then 0 else if w = ''[PAD]'' then 1
               else if w = ''[START]'' then 2 else if w = ''[STOP]'' then 3
               else if w = ''.'' then 5 else if w = ''the'' then 10
               else if w = ''he'' then 11 else 20)"

definition env0 :: "nat \<Rightarrow> int list \<Rightarrow> unit env" where
  "env0 maxs cand = \<lparr>N_FREE_TOKENS = 4, START_DECODING = ''[START]'', STOP_DECODING = ''[STOP]'',
      word2id = vocab0, beam_size = 1, max_dec_steps = maxs, min_dec_steps = 0,
      smart_decode = False, dec_in_state = (), attn_length = 2,
      article_id_to_word_ids = (\<lambda>t. None),
      decode_onestep = (\<lambda>lt st cov. \<lparr>topk_ids = map (\<lambda>_. cand) lt,
         topk_log_probs = map (\<lambda>_. [- 1, - 2]) lt, new_states = st,
         step_attn_dists = map (\<lambda>_. [1 / 2, 1 / 2]) lt, step_p_gens = map (\<lambda>_. 1) lt,
         new_coverage = map (\<lambda>c. map (\<lambda>x. x + 1 / 2) c) cov\<rparr>)\<rparr>"


definition example_hyp :: "int list \<Rightarrow> real list \<Rightarrow> unit hypothesis" where
  "example_hyp toks lps =
     \<lparr>tokens = toks, log_probs = lps, state = (),
      attn_dists = replicate (length toks - 1) [1, 0],
      p_gens = replicate (length toks - 1) 1,
      coverage = [real (length toks - 1), 0]\<rparr>"

subsection \<open>Notions for the properties of the search\<close>





section \<open>Properties\<close>

subsection \<open>make_html_safe\<close>

lemma str_replace_example:
  "str_replace ''<'' ''&lt;'' ''a<b'' = ''a&lt;b''"
  by simp

text \<open>
  C10. For every input string \<open>s\<close>, \<open>make_html_safe s\<close> is \<open>s\<close> itself: the results of
  the two \<open>replace\<close> calls are discarded, so angled brackets come back intact; on
  \<open>a<b>\<close> the result is \<open>a<b>\<close> and not the escaped \<open>a&lt;b&gt;\<close>.
\<close>

theorem make_html_safe_identity:
  "make_html_safe s = s
   \<and> make_html_safe ''a<b>'' = ''a<b>''
   \<and> make_html_safe ''a<b>'' \<noteq> str_replace ''>'' ''&gt;'' (str_replace ''<'' ''&lt;'' ''a<b>'')"
  by (simp add: make_html_safe_def)

subsection \<open>The constructor, extend and cov_loss on malformed hypotheses\<close>

text \<open>
  C9. For every Hypothesis and every argument tuple, \<open>extend\<close> returns a new Hypothesis
  (a freshly allocated object) whose tokens, log_probs, attn_dists and p_gens are the
  parent's sequences with exactly one element appended and whose state and coverage are
  the supplied values; the parent object, and every other object of the store, is the
  same after the call as before it.
\<close>

theorem extend_appends_and_keeps_parent:
  assumes "self < length objs"
  shows "\<exists>child. extend_in_store objs self token log_prob st attn_dist p_gen cov
                    = Inr (objs @ [child], length objs)
           \<and> tokens child = tokens (objs ! self) @ [token]
           \<and> log_probs child = log_probs (objs ! self) @ [log_prob]
           \<and> attn_dists child = attn_dists (objs ! self) @ [attn_dist]
           \<and> p_gens child = p_gens (objs ! self) @ [p_gen]
           \<and> state child = st
           \<and> coverage child = cov
           \<and> (objs @ [child]) ! length objs = child
           \<and> (objs @ [child]) ! self = objs ! self
           \<and> (\<forall>r < length objs. (objs @ [child]) ! r = objs ! r)"
  using assms
  by (simp add: extend_in_store_def extend_def Hypothesis_init_def nth_append)

theorem extend_appends_and_keeps_parent_witness:
  "(0::nat) < length [\<lparr>tokens = [2], log_probs = [0], state = (), attn_dists = [],
               p_gens = [], coverage = [0, 0]\<rparr>]
   \<and> extend_in_store [\<lparr>tokens = [2], log_probs = [0], state = (), attn_dists = [],
               p_gens = [], coverage = [0, 0]\<rparr>] 0 7 (- 1) () [1, 0] (1 / 2) [1, 0]
      = Inr ([\<lparr>tokens = [2], log_probs = [0], state = (), attn_dists = [],
               p_gens = [], coverage = [0, 0]\<rparr>,
              \<lparr>tokens = [2, 7], log_probs = [0, - 1], state = (), attn_dists = [[1, 0]],
               p_gens = [1 / 2], coverage = [1, 0]\<rparr>], 1)"
  using extend_appends_and_keeps_parent [of 0 "[\<lparr>tokens = [2], log_probs = [0], state = (), attn_dists = [],
               p_gens = [], coverage = [0, 0]\<rparr>]" 7 "- 1" "()" "[1, 0]" "1 / 2" "[1, 0]"]
  by (simp add: extend_in_store_def extend_def Hypothesis_init_def)

text \<open>
  C3, as it fails: the constructor accepts tokens of length 2 with log_probs of length 1
  and empty attn_dists and p_gens, which violates the length relation, and builds the
  object.
\<close>

theorem hypothesis_unvalidated_counterexample:
  "\<not> (length [1, 2 :: int] = length [0 :: real]
        \<and> length [0 :: real] = length ([] :: real list list) + 1
        \<and> length ([] :: real list list) + 1 = length ([] :: real list) + 1)
   \<and> (Hypothesis_init [1, 2] [0] () [] [] [] :: py_error + unit hypothesis) =
       Inr \<lparr>tokens = [1, 2], log_probs = [0], state = (), attn_dists = [],
            p_gens = [], coverage = []\<rparr>"
  by (simp add: Hypothesis_init_def)

text \<open>
  C3, amended. The constructor validates nothing: for any six arguments, whatever their
  lengths, it succeeds and stores them as given. Requesting \<open>cov_loss\<close> on a hypothesis
  whose attn_dists is empty raises Python's IndexError (from reading \<open>attn_dists[0]\<close>);
  there is no dedicated error for a malformed hypothesis.
\<close>

theorem hypothesis_unvalidated:
  "Hypothesis_init toks lps st ads pgs cov =
     Inr \<lparr>tokens = toks, log_probs = lps, state = st, attn_dists = ads,
          p_gens = pgs, coverage = cov\<rparr>
   \<and> (attn_dists h = [] \<longrightarrow> cov_loss h = Inl IndexError)"
  by (simp add: Hypothesis_init_def cov_loss_def)

theorem hypothesis_unvalidated_witness:
  "attn_dists \<lparr>tokens = [2], log_probs = [0], state = (), attn_dists = [],
               p_gens = [], coverage = [0, 0]\<rparr> = []
   \<and> cov_loss \<lparr>tokens = [2], log_probs = [0], state = (), attn_dists = [],
               p_gens = [], coverage = [0, 0]\<rparr> = Inl IndexError"
  using hypothesis_unvalidated [of "[2]" "[0]" "()" "[]" "[]" "[0, 0]"
      "\<lparr>tokens = [2], log_probs = [0], state = (), attn_dists = [],
               p_gens = [], coverage = [0, 0]\<rparr>"]
  by simp

subsection \<open>avg_log_prob\<close>

lemma list_ex_interior:
  "list_ex P (butlast (tl ts)) \<longleftrightarrow> (\<exists>i. 1 \<le> i \<and> i + 1 < length ts \<and> P (ts ! i))"
proof -
  have len: "length (butlast (tl ts)) = length ts - 2" by simp
  have nth: "\<And>k. k < length ts - 2 \<Longrightarrow> butlast (tl ts) ! k = ts ! Suc k"
    by (simp add: nth_butlast nth_tl)
  have "list_ex P (butlast (tl ts)) \<longleftrightarrow> (\<exists>k < length ts - 2. P (ts ! Suc k))"
    unfolding list_ex_length len using nth by auto
  also have "\<dots> \<longleftrightarrow> (\<exists>i. 1 \<le> i \<and> i + 1 < length ts \<and> P (ts ! i))"
  proof
    assume "\<exists>k < length ts - 2. P (ts ! Suc k)"
    then obtain k where "k < length ts - 2" "P (ts ! Suc k)" by blast
    then have "1 \<le> Suc k \<and> Suc k + 1 < length ts \<and> P (ts ! Suc k)" by simp
    then show "\<exists>i. 1 \<le> i \<and> i + 1 < length ts \<and> P (ts ! i)" by blast
  next
    assume "\<exists>i. 1 \<le> i \<and> i + 1 < length ts \<and> P (ts ! i)"
    then obtain i where i: "1 \<le> i" "i + 1 < length ts" "P (ts ! i)" by blast
    then have "i - 1 < length ts - 2 \<and> P (ts ! Suc (i - 1))" by simp
    then show "\<exists>k < length ts - 2. P (ts ! Suc k)" by blast
  qed
  finally show ?thesis .
qed

lemma has_unknown_token_char:
  assumes "tokens h \<noteq> []"
  shows "has_unknown_token n_free h stop_token_id
           = Inr (unknown_token_spec n_free (tokens h) stop_token_id)"
  using assms
  by (simp add: has_unknown_token_def unknown_token_spec_def latest_token_def list_ex_interior)

text \<open>
  C5. For every hypothesis (with at least the start token), \<open>avg_log_prob\<close> returns the
  sentinel \<open>-10^6\<close> when some interior token, or a final token that is not the stop
  token, is below the free-vocabulary threshold, and otherwise the sum of the log-probs
  divided by the number of tokens (not by the number of log-probs).
\<close>

theorem avg_log_prob_correct:
  assumes "tokens h \<noteq> []"
  shows "avg_log_prob n_free h stop_token_id =
           Inr (Num (if unknown_token_spec n_free (tokens h) stop_token_id
                     then - (10 ^ 6)
                     else sum_list (log_probs h) / real (length (tokens h))))"
  using assms by (simp add: avg_log_prob_def has_unknown_token_char)

theorem avg_log_prob_correct_witness:
  "tokens \<lparr>tokens = [2, 7, 8, 3], log_probs = [0, -1, -2, -3], state = (),
           attn_dists = [], p_gens = [], coverage = []\<rparr> \<noteq> []
   \<and> avg_log_prob 4 \<lparr>tokens = [2, 7, 8, 3], log_probs = [0, -1, -2, -3], state = (),
           attn_dists = [], p_gens = [], coverage = []\<rparr> 3 = Inr (Num (- (3 / 2)))
   \<and> \<not> unknown_token_spec 4 [2, 7, 8, 3] 3"
proof -
  let ?h = "\<lparr>tokens = [2, 7, 8, 3], log_probs = [0, -1, -2, -3], state = (),
           attn_dists = [], p_gens = [], coverage = []\<rparr> :: unit hypothesis"
  have ne: "tokens ?h \<noteq> []" by simp
  have val: "avg_log_prob 4 ?h 3 = Inr (Num (- (3 / 2)))"
    by (simp add: avg_log_prob_def has_unknown_token_def latest_token_def)
  have spec: "\<not> unknown_token_spec 4 [2, 7, 8, 3] 3"
  proof
    assume "unknown_token_spec 4 [2, 7, 8, 3] 3"
    then have "avg_log_prob 4 ?h 3 = Inr (Num (- (10 ^ 6)))"
      using avg_log_prob_correct [OF ne, of 4 3] by simp
    then show False unfolding val by simp
  qed
  show ?thesis using ne val spec by blast
qed

subsection \<open>smart_avg_log_prob\<close>

lemma window_loop_length [simp]: "length (window_loop W ts i js w) = length w"
  by (induction js arbitrary: w) auto

lemma window_loop_nth:
  "j < length w \<Longrightarrow> window_loop W ts i js w ! j =
     (if j \<in> set js \<and> ts ! j \<notin> W then 1 / real (j - i + 5) else w ! j)"
proof (induction js arbitrary: w)
  case Nil
  then show ?case by simp
next
  case (Cons a js)
  show ?case
  proof (cases "a = j")
    case True
    then show ?thesis using Cons by simp
  next
    case False
    then show ?thesis using Cons by simp
  qed
qed

lemma smart_loop_append:
  "smart_loop S W P ts (xs @ ys) w lp =
     bind_err (smart_loop S W P ts xs w lp) (\<lambda>(w', lp'). smart_loop S W P ts ys w' lp')"
  by (induction xs arbitrary: w lp) (auto simp: Let_def)


lemma smart_loop_upto:
  assumes "length w = length ts" "length lp = length ts" "m \<le> length ts"
  shows "\<exists>w' lp'. smart_loop S W P ts [0 ..< m] w lp = Inr (w', lp')
           \<and> length w' = length ts \<and> length lp' = length ts
           \<and> (\<forall>j < length ts. w' ! j =
                 (let starts = filter (\<lambda>i. ts ! i \<in> S \<and> i + 1 \<le> j \<and> j < min (length ts) (i + 5)) [0 ..< m]
                  in if ts ! j \<in> W \<or> starts = [] then w ! j
                     else 1 / real (j - last starts + 5)))
           \<and> (\<forall>i < length ts. lp' ! i =
                 (if i < m \<and> ts ! i \<in> P then lp ! i - 8 / 10 else lp ! i))"
  using assms(3)
proof (induction m)
  case 0
  then show ?case using assms by simp
next
  case (Suc m)
  then have m: "m < length ts" by simp
  from Suc obtain w1 lp1 where
    run: "smart_loop S W P ts [0 ..< m] w lp = Inr (w1, lp1)"
    and len: "length w1 = length ts" "length lp1 = length ts"
    and wv: "\<forall>j < length ts. w1 ! j =
                 (let starts = filter (\<lambda>i. ts ! i \<in> S \<and> i + 1 \<le> j \<and> j < min (length ts) (i + 5)) [0 ..< m]
                  in if ts ! j \<in> W \<or> starts = [] then w ! j
                     else 1 / real (j - last starts + 5))"
    and lv: "\<forall>i < length ts. lp1 ! i =
                 (if i < m \<and> ts ! i \<in> P then lp ! i - 8 / 10 else lp ! i)"
    by auto
  define w2 where "w2 = (if ts ! m \<in> S
                then window_loop W ts m [m + 1 ..< min (length ts) (m + 5)] w1
                else w1)"
  define lp2 where "lp2 = (if ts ! m \<in> P then lp1[m := lp1 ! m - 8 / 10] else lp1)"
  have step: "smart_loop S W P ts [m] w1 lp1 = Inr (w2, lp2)"
    using m len by (simp add: w2_def lp2_def Let_def)
  have run2: "smart_loop S W P ts [0 ..< Suc m] w lp = Inr (w2, lp2)"
    using run step by (simp add: smart_loop_append del: smart_loop.simps)
  have l2: "length w2 = length ts" "length lp2 = length ts"
    using len by (simp_all add: w2_def lp2_def)
  have w2v: "w2 ! j =
                 (let starts = filter (\<lambda>i. ts ! i \<in> S \<and> i + 1 \<le> j \<and> j < min (length ts) (i + 5)) [0 ..< Suc m]
                  in if ts ! j \<in> W \<or> starts = [] then w ! j
                     else 1 / real (j - last starts + 5))" if j: "j < length ts" for j
  proof -
    have w1j: "w1 ! j =
                 (let starts = filter (\<lambda>i. ts ! i \<in> S \<and> i + 1 \<le> j \<and> j < min (length ts) (i + 5)) [0 ..< m]
                  in if ts ! j \<in> W \<or> starts = [] then w ! j
                     else 1 / real (j - last starts + 5))"
      using wv j by blast
    define Q where "Q = (\<lambda>i. ts ! i \<in> S \<and> i + 1 \<le> j \<and> j < min (length ts) (i + 5))"
    have snoc: "filter Q [0 ..< Suc m] = filter Q [0 ..< m] @ (if Q m then [m] else [])"
      by simp
    have w1q: "w1 ! j = (if ts ! j \<in> W \<or> filter Q [0 ..< m] = [] then w ! j
                         else 1 / real (j - last (filter Q [0 ..< m]) + 5))"
      using w1j unfolding Q_def Let_def .
    have goal: "w2 ! j = (if ts ! j \<in> W \<or> filter Q [0 ..< Suc m] = [] then w ! j
                         else 1 / real (j - last (filter Q [0 ..< Suc m]) + 5))"
    proof (cases "Q m")
      case True
      then have inwin: "j \<in> set [m + 1 ..< min (length ts) (m + 5)]" and mS: "ts ! m \<in> S"
        unfolding Q_def by auto
      have "w2 ! j = (if ts ! j \<notin> W then 1 / real (j - m + 5) else w1 ! j)"
        using j len inwin mS unfolding w2_def by (simp only: window_loop_nth if_True) simp
      then show ?thesis using True w1q unfolding snoc by simp
    next
      case False
      have "w2 ! j = w1 ! j"
      proof (cases "ts ! m \<in> S")
        case True
        then have "j \<notin> set [m + 1 ..< min (length ts) (m + 5)]"
          using False unfolding Q_def by auto
        then show ?thesis using j len True unfolding w2_def
          by (simp only: window_loop_nth if_True) simp
      next
        case False
        then show ?thesis by (simp add: w2_def)
      qed
      then show ?thesis using False w1q unfolding snoc by simp
    qed
    show ?thesis using goal unfolding Q_def Let_def .
  qed
  have lp2v: "lp2 ! i = (if i < Suc m \<and> ts ! i \<in> P then lp ! i - 8 / 10 else lp ! i)"
    if i: "i < length ts" for i
  proof -
    have "lp1 ! i = (if i < m \<and> ts ! i \<in> P then lp ! i - 8 / 10 else lp ! i)"
      using lv i by blast
    then show ?thesis
      using i m len by (auto simp: lp2_def nth_list_update less_Suc_eq)
  qed
  show ?case using run2 l2 w2v lp2v by blast
qed


lemma smart_loop_full:
  assumes "length lp = length ts"
  shows "smart_loop S W P ts [0 ..< length ts] (replicate (length ts) 0) lp
           = Inr (spec_weights S W ts, working_log_probs P ts lp)"
proof -
  from smart_loop_upto [of "replicate (length ts) 0" ts lp "length ts" S W P] assms
  obtain w' lp' where
    run: "smart_loop S W P ts [0 ..< length ts] (replicate (length ts) 0) lp = Inr (w', lp')"
    and len: "length w' = length ts" "length lp' = length ts"
    and wv: "\<forall>j < length ts. w' ! j =
                 (let starts = filter (\<lambda>i. ts ! i \<in> S \<and> i + 1 \<le> j \<and> j < min (length ts) (i + 5)) [0 ..< length ts]
                  in if ts ! j \<in> W \<or> starts = [] then replicate (length ts) 0 ! j
                     else 1 / real (j - last starts + 5))"
    and lv: "\<forall>i < length ts. lp' ! i =
                 (if i < length ts \<and> ts ! i \<in> P then lp ! i - 8 / 10 else lp ! i)"
    by auto
  have "w' = spec_weights S W ts"
  proof (rule nth_equalityI)
    show "length w' = length (spec_weights S W ts)" using len by (simp add: spec_weights_def)
  next
    fix j assume "j < length w'"
    then have j: "j < length ts" using len by simp
    then show "w' ! j = spec_weights S W ts ! j"
      using wv by (simp add: spec_weights_def spec_weight_def sentence_starts_for_def Let_def)
  qed
  moreover have "lp' = working_log_probs P ts lp"
  proof (rule nth_equalityI)
    show "length lp' = length (working_log_probs P ts lp)"
      using len assms by (simp add: working_log_probs_def)
  next
    fix i assume "i < length lp'"
    then have i: "i < length ts" using len by simp
    then show "lp' ! i = working_log_probs P ts lp ! i"
      using lv assms by (simp add: working_log_probs_def)
  qed
  ultimately show ?thesis using run by simp
qed

lemma fsum_products_Num:
  "fsum (map2 (\<lambda>x y. fmul x (Num y)) (map Num xs) ys) = Num (sum_list (map2 (*) xs ys))"
proof (induction xs arbitrary: ys)
  case Nil
  then show ?case by simp
next
  case (Cons x xs)
  then show ?case by (cases ys) simp_all
qed


lemma sum_list_divide: "sum_list (map (\<lambda>x. x / c) xs) = sum_list xs / (c :: real)"
  by (induction xs) (simp_all add: add_divide_distrib)

lemma length_normalized [simp]: "length (normalized w) = length w"
  by (simp add: normalized_def)

lemma np_normalize_nonzero:
  "sum_list w \<noteq> 0 \<Longrightarrow> np_normalize w = map Num (normalized w)"
  by (simp add: np_normalize_def normalized_def Let_def)


lemma fadd_NaN [simp]: "fadd x NaN = NaN" "fadd NaN x = NaN"
  by (cases x; simp)+

lemma fmul_NaN [simp]: "fmul x NaN = NaN" "fmul NaN x = NaN"
  by (cases x; simp)+

lemma spec_weights_nonneg: "x \<in> set (spec_weights S W ts) \<Longrightarrow> 0 \<le> x"
  by (auto simp: spec_weights_def spec_weight_def)




text \<open>
  C4, as it fails: tokens \<open>[2, 10]\<close> (start token, then a stopword) contain no unknown
  token for the threshold 4, yet every weight is 0, the weights cannot be normalised to
  sum 1 and the result is \<open>nan\<close>, which is no value of the formula.
\<close>

theorem smart_avg_log_prob_formula_counterexample:
  "has_unknown_token 4 \<lparr>tokens = [2, 10], log_probs = [0, - 1], state = (),
        attn_dists = [[1]], p_gens = [1], coverage = [1]\<rparr> 3 = Inr False
   \<and> smart_avg_log_prob {2, 5} {10} {11}
        \<lparr>tokens = [2, 10], log_probs = [0, - 1], state = (), attn_dists = [[1]],
         p_gens = [1], coverage = [1]\<rparr> = Inr NaN
   \<and> sum_list (normalized (spec_weights {2, 5} {10} [2, 10])) \<noteq> 1"
  by (simp add: smart_avg_log_prob_def np_dot_def np_normalize_def np_mean_def upt_rec
      has_unknown_token_def latest_token_def normalized_def spec_weights_def spec_weight_def
      sentence_starts_for_def)

text \<open>
  C4, amended. For every hypothesis with as many log-probs as tokens whose weight vector
  has a non-zero sum, \<open>smart_avg_log_prob\<close> equals 0.75 times the mean of the working
  log-probs (each position whose token is in \<open>pronoun_ids\<close> reduced by 0.8) plus 0.25
  times the dot product of the normalised weight vector with the working log-probs,
  where the weight of \<open>j\<close> is \<open>1 / (j - i + 5)\<close> for the last sentence start \<open>i\<close> with
  \<open>i + 1 \<le> j < min len (i + 5)\<close> if the token at \<open>j\<close> is no stopword and 0 otherwise,
  and the normalised weights sum to 1.
\<close>

theorem smart_avg_log_prob_formula:
  assumes "length (log_probs h) = length (tokens h)"
    and "sum_list (spec_weights S W (tokens h)) \<noteq> 0"
  shows "smart_avg_log_prob S W P h
           = Inr (Num (smart_avg_spec S W P (tokens h) (log_probs h)))
         \<and> sum_list (normalized (spec_weights S W (tokens h))) = 1"
proof
  let ?w = "spec_weights S W (tokens h)"
  let ?lp = "working_log_probs P (tokens h) (log_probs h)"
  have run: "smart_loop S W P (tokens h) [0 ..< length (tokens h)]
           (replicate (length (tokens h)) 0) (log_probs h) = Inr (?w, ?lp)"
    using smart_loop_full [OF assms(1)] .
  have len: "length ?w = length ?lp"
    using assms(1) by (simp add: spec_weights_def working_log_probs_def)
  have "?w \<noteq> []" using assms(2) by auto
  then have ne: "?lp \<noteq> []" using len by auto
  have dot: "np_dot (np_normalize ?w) ?lp = Inr (Num (dot (normalized ?w) ?lp))"
    using len assms(2)
    by (simp add: np_dot_def np_normalize_nonzero fsum_products_Num dot_def
          del: map_map)
  have mean: "np_mean ?lp = Num (mean ?lp)"
    using ne by (simp add: np_mean_def mean_def)
  show "smart_avg_log_prob S W P h = Inr (Num (smart_avg_spec S W P (tokens h) (log_probs h)))"
    unfolding smart_avg_log_prob_def run using dot mean
    by (simp add: smart_avg_spec_def)
  show "sum_list (normalized ?w) = 1"
    using assms(2) by (simp add: normalized_def sum_list_divide)
qed

theorem smart_avg_log_prob_formula_witness:
  "length (log_probs \<lparr>tokens = [2, 11, 10, 5, 12, 13], log_probs = [0, - 1, - 2, - 3, - 4, - 5],
         state = (), attn_dists = [], p_gens = [], coverage = []\<rparr>)
     = length (tokens \<lparr>tokens = [2, 11, 10, 5, 12, 13], log_probs = [0, - 1, - 2, - 3, - 4, - 5],
         state = (), attn_dists = [], p_gens = [], coverage = []\<rparr>)
   \<and> spec_weights {2, 5} {10} [2, 11, 10, 5, 12, 13] = [0, 1 / 6, 0, 1 / 8, 1 / 6, 1 / 7]
   \<and> sum_list (spec_weights {2, 5} {10} [2, 11, 10, 5, 12, 13]) \<noteq> 0
   \<and> smart_avg_log_prob {2, 5} {10} {11}
        \<lparr>tokens = [2, 11, 10, 5, 12, 13], log_probs = [0, - 1, - 2, - 3, - 4, - 5],
         state = (), attn_dists = [], p_gens = [], coverage = []\<rparr>
       = Inr (Num (smart_avg_spec {2, 5} {10} {11} [2, 11, 10, 5, 12, 13]
                     [0, - 1, - 2, - 3, - 4, - 5]))"
proof -
  let ?h = "\<lparr>tokens = [2, 11, 10, 5, 12, 13], log_probs = [0, - 1, - 2, - 3, - 4, - 5],
         state = (), attn_dists = [], p_gens = [], coverage = []\<rparr> :: unit hypothesis"
  have a: "length (log_probs ?h) = length (tokens ?h)" by simp
  have w: "spec_weights {2, 5} {10} [2, 11, 10, 5, 12, 13] = [0, 1 / 6, 0, 1 / 8, 1 / 6, 1 / 7]"
    by (simp add: spec_weights_def spec_weight_def sentence_starts_for_def upt_rec)
  have b: "sum_list (spec_weights {2, 5} {10} (tokens ?h)) \<noteq> 0"
    using w by simp
  from smart_avg_log_prob_formula [OF a b, of "{11}"] a w b
  show ?thesis by simp
qed

subsection \<open>sort_hyps\<close>



lemma map_err_total:
  "\<forall>x \<in> set xs. \<exists>y. f x = Inr y \<Longrightarrow> map_err f xs = Inr (map (\<lambda>x. projr (f x)) xs)"
  by (induction xs) auto

lemma fval_lt_key_value:
  "fst a \<noteq> NaN \<Longrightarrow> fst b \<noteq> NaN \<Longrightarrow> fval_lt (fst a) (fst b) \<longleftrightarrow> key_value a < key_value b"
  by (cases "fst a"; cases "fst b") (simp_all add: score_value_def key_value_def)

lemma mset_binarysort: "mset (binarysort xs rest) = mset xs + mset rest"
proof (induction rest arbitrary: xs)
  case Nil
  then show ?case by simp
next
  case (Cons pivot rest)
  define l where "l = bisect (fst pivot) xs 0 (length xs)"
  have "mset (take l xs) + mset (drop l xs) = mset xs"
    by (metis append_take_drop_id mset_append)
  then have "mset (take l xs @ pivot # drop l xs) = add_mset pivot (mset xs)"
    by simp
  then show ?case using Cons.IH [of "take l xs @ pivot # drop l xs"]
    by (simp add: l_def Let_def)
qed

lemma mset_listsort: "mset (listsort ps) = mset ps"
proof (cases "length ps < 2")
  case True
  then show ?thesis by (simp add: listsort_def)
next
  case False
  obtain n d where cr: "count_run ps = (n, d)" by (cases "count_run ps")
  have "mset (take n ps) + mset (drop n ps) = mset ps"
    by (metis append_take_drop_id mset_append)
  then show ?thesis using False cr
    by (simp add: listsort_def mset_binarysort)
qed

lemma bisect_bounds:
  assumes srt: "sorted (map key_value xs)" and nn: "\<forall>q \<in> set xs. fst q \<noteq> NaN"
    and pn: "fst pv \<noteq> NaN"
  shows "l \<le> r \<Longrightarrow> r \<le> length xs
    \<Longrightarrow> \<forall>i < l. key_value (xs ! i) \<le> key_value pv
    \<Longrightarrow> \<forall>i. r \<le> i \<and> i < length xs \<longrightarrow> key_value pv < key_value (xs ! i)
    \<Longrightarrow> bisect (fst pv) xs l r \<le> length xs
      \<and> (\<forall>i < bisect (fst pv) xs l r. key_value (xs ! i) \<le> key_value pv)
      \<and> (\<forall>i. bisect (fst pv) xs l r \<le> i \<and> i < length xs \<longrightarrow> key_value pv < key_value (xs ! i))"
proof (induction "r - l" arbitrary: l r rule: less_induct)
  case less
  show ?case
  proof (cases "l < r")
    case False
    then have "bisect (fst pv) xs l r = l" "l = r"
      using less.prems by (simp_all add: bisect.simps)
    then show ?thesis using less.prems by auto
  next
    case True
    define p where "p = l + (r - l) div 2"
    have pr: "l \<le> p" "p < r" using True by (simp_all add: p_def)
    have plen: "p < length xs" using pr less.prems by simp
    have "fst (xs ! p) \<noteq> NaN" using nn plen nth_mem by blast
    then have cmp: "fval_lt (fst pv) (fst (xs ! p)) \<longleftrightarrow> key_value pv < key_value (xs ! p)"
      using pn by (simp add: fval_lt_key_value)
    have mono: "key_value (xs ! i) \<le> key_value (xs ! j)" if "i \<le> j" "j < length xs" for i j
      using sorted_nth_mono [OF srt, of i j] that by simp
    show ?thesis
    proof (cases "fval_lt (fst pv) (fst (xs ! p))")
      case True
      then have step: "bisect (fst pv) xs l r = bisect (fst pv) xs l p"
        using \<open>l < r\<close> by (subst bisect.simps) (simp add: p_def Let_def)
      have above: "\<forall>i. p \<le> i \<and> i < length xs \<longrightarrow> key_value pv < key_value (xs ! i)"
      proof (intro allI impI)
        fix i assume "p \<le> i \<and> i < length xs"
        then have "key_value (xs ! p) \<le> key_value (xs ! i)" using mono by blast
        then show "key_value pv < key_value (xs ! i)" using True cmp by simp
      qed
      have "p - l < r - l" using pr by simp
      from less.hyps [OF this pr(1) _ less.prems(3) above] plen
      show ?thesis unfolding step by simp
    next
      case False
      then have step: "bisect (fst pv) xs l r = bisect (fst pv) xs (p + 1) r"
        using \<open>l < r\<close> by (subst bisect.simps) (simp add: p_def Let_def)
      have below: "\<forall>i < p + 1. key_value (xs ! i) \<le> key_value pv"
      proof (intro allI impI)
        fix i assume "i < p + 1"
        then have "key_value (xs ! i) \<le> key_value (xs ! p)" using mono plen by simp
        then show "key_value (xs ! i) \<le> key_value pv" using False cmp by simp
      qed
      have "r - (p + 1) < r - l" using pr by simp
      from less.hyps [OF this _ less.prems(2) below less.prems(4)] pr
      show ?thesis unfolding step by simp
    qed
  qed
qed

lemma insert_at_sorted:
  assumes srt: "sorted (map key_value xs)" and m: "m \<le> length xs"
    and lo: "\<forall>i < m. key_value (xs ! i) \<le> key_value p"
    and hi: "\<forall>i. m \<le> i \<and> i < length xs \<longrightarrow> key_value p < key_value (xs ! i)"
  shows "sorted (map key_value (take m xs @ p # drop m xs))"
    and "filter (\<lambda>y. key_value y = c) (take m xs @ p # drop m xs)
           = filter (\<lambda>y. key_value y = c) (xs @ [p])"
proof -
  have t: "\<forall>y \<in> set (take m xs). key_value y \<le> key_value p"
  proof
    fix y assume "y \<in> set (take m xs)"
    then obtain i where "i < m" "i < length xs" "y = xs ! i"
      using m by (auto simp: in_set_conv_nth)
    then show "key_value y \<le> key_value p" using lo by simp
  qed
  have d: "\<forall>y \<in> set (drop m xs). key_value p < key_value y"
  proof
    fix y assume "y \<in> set (drop m xs)"
    then obtain i where "i < length xs - m" "y = xs ! (m + i)"
      by (auto simp: in_set_conv_nth)
    then show "key_value p < key_value y" using hi by simp
  qed
  have st: "sorted (map key_value (take m xs))" "sorted (map key_value (drop m xs))"
    using srt by (simp_all add: sorted_wrt_take sorted_wrt_drop sorted_map)
  have cross: "\<forall>x \<in> set (take m xs). \<forall>y \<in> set (drop m xs). key_value x \<le> key_value y"
    using t d by fastforce
  have dle: "\<forall>y \<in> set (drop m xs). key_value p \<le> key_value y"
    using d by fastforce
  show "sorted (map key_value (take m xs @ p # drop m xs))"
    using t dle cross st by (simp add: sorted_append)
  have "filter (\<lambda>y. key_value y = c) (p # drop m xs)
          = filter (\<lambda>y. key_value y = c) (drop m xs @ [p])"
  proof (cases "key_value p = c")
    case True
    then have "filter (\<lambda>y. key_value y = c) (drop m xs) = []"
      using d by (auto simp: filter_empty_conv)
    then show ?thesis using True by simp
  next
    case False
    then show ?thesis by simp
  qed
  then have "filter (\<lambda>y. key_value y = c) (take m xs @ p # drop m xs)
      = filter (\<lambda>y. key_value y = c) (take m xs) @ filter (\<lambda>y. key_value y = c) (drop m xs)
          @ filter (\<lambda>y. key_value y = c) [p]"
    by (simp only: filter_append)
  also have "\<dots> = filter (\<lambda>y. key_value y = c) xs @ filter (\<lambda>y. key_value y = c) [p]"
    by (metis append_assoc append_take_drop_id filter_append)
  finally show "filter (\<lambda>y. key_value y = c) (take m xs @ p # drop m xs)
           = filter (\<lambda>y. key_value y = c) (xs @ [p])"
    by (simp only: filter_append)
qed

lemma binarysort_sorted_stable:
  assumes "sorted (map key_value xs)" "\<forall>q \<in> set (xs @ rest). fst q \<noteq> NaN"
  shows "sorted (map key_value (binarysort xs rest))
    \<and> (\<forall>c. filter (\<lambda>y. key_value y = c) (binarysort xs rest)
            = filter (\<lambda>y. key_value y = c) (xs @ rest))"
  using assms
proof (induction rest arbitrary: xs)
  case Nil
  then show ?case by simp
next
  case (Cons pivot rest)
  define m where "m = bisect (fst pivot) xs 0 (length xs)"
  define xs' where "xs' = take m xs @ pivot # drop m xs"
  have nn: "\<forall>q \<in> set xs. fst q \<noteq> NaN" and pn: "fst pivot \<noteq> NaN"
    using Cons.prems(2) by simp_all
  from bisect_bounds [OF Cons.prems(1) nn pn, of 0 "length xs"]
  have b: "m \<le> length xs" "\<forall>i < m. key_value (xs ! i) \<le> key_value pivot"
    "\<forall>i. m \<le> i \<and> i < length xs \<longrightarrow> key_value pivot < key_value (xs ! i)"
    unfolding m_def by simp_all
  have s': "sorted (map key_value xs')"
    and f': "\<And>c. filter (\<lambda>y. key_value y = c) xs' = filter (\<lambda>y. key_value y = c) (xs @ [pivot])"
    unfolding xs'_def using insert_at_sorted [OF Cons.prems(1) b] by blast+
  have "set (take m xs) \<union> set (drop m xs) = set xs"
    by (metis append_take_drop_id set_append)
  then have "set xs' = insert pivot (set xs)"
    unfolding xs'_def by auto
  then have nn': "\<forall>q \<in> set (xs' @ rest). fst q \<noteq> NaN"
    using Cons.prems(2) by auto
  from Cons.IH [OF s' nn']
  have r1: "sorted (map key_value (binarysort xs' rest))"
    and r2: "\<And>c. filter (\<lambda>y. key_value y = c) (binarysort xs' rest)
            = filter (\<lambda>y. key_value y = c) (xs' @ rest)"
    by blast+
  have step: "binarysort xs (pivot # rest) = binarysort xs' rest"
    by (simp add: m_def xs'_def Let_def)
  have "filter (\<lambda>y. key_value y = c) (xs' @ rest) = filter (\<lambda>y. key_value y = c) (xs @ pivot # rest)"
    for c
    using f' [of c] by simp
  then show ?case unfolding step using r1 r2 by simp
qed

lemma run_asc_sorted: "fst p \<noteq> NaN \<Longrightarrow> \<forall>q \<in> set qs. fst q \<noteq> NaN
    \<Longrightarrow> sorted (map key_value (p # take (run_asc p qs) qs))"
proof (induction qs arbitrary: p)
  case Nil
  then show ?case by simp
next
  case (Cons q qs)
  show ?case
  proof (cases "fval_lt (fst q) (fst p)")
    case True
    then show ?thesis by simp
  next
    case False
    then have "key_value p \<le> key_value q" using Cons.prems by (simp add: fval_lt_key_value)
    moreover have "sorted (map key_value (q # take (run_asc q qs) qs))"
      using Cons by simp
    ultimately show ?thesis using False by auto
  qed
qed

lemma run_desc_strict: "fst p \<noteq> NaN \<Longrightarrow> \<forall>q \<in> set qs. fst q \<noteq> NaN
    \<Longrightarrow> sorted_wrt (\<lambda>a b. key_value b < key_value a) (p # take (run_desc p qs) qs)"
proof (induction qs arbitrary: p)
  case Nil
  then show ?case by simp
next
  case (Cons q qs)
  show ?case
  proof (cases "fval_lt (fst q) (fst p)")
    case False
    then show ?thesis by simp
  next
    case True
    then have lt: "key_value q < key_value p" using Cons.prems by (simp add: fval_lt_key_value)
    have ih: "sorted_wrt (\<lambda>a b. key_value b < key_value a) (q # take (run_desc q qs) qs)"
      using Cons by simp
    then have "\<forall>y \<in> set (take (run_desc q qs) qs). key_value y < key_value q" by simp
    then have "\<forall>y \<in> set (q # take (run_desc q qs) qs). key_value y < key_value p"
      using lt by auto
    then show ?thesis using True ih by simp
  qed
qed

lemma strict_desc_rev:
  assumes "sorted_wrt (\<lambda>a b. key_value b < key_value a) xs"
  shows "sorted (map key_value (rev xs))"
    and "filter (\<lambda>y. key_value y = c) (rev xs) = filter (\<lambda>y. key_value y = c) xs"
proof -
  have "sorted_wrt (\<lambda>a b. key_value a < key_value b) (rev xs)"
    using assms by (simp add: sorted_wrt_rev)
  then have "sorted_wrt (\<lambda>a b. key_value a \<le> key_value b) (rev xs)"
    by (rule sorted_wrt_mono_rel [rotated]) simp
  then show "sorted (map key_value (rev xs))" by (simp add: sorted_map)
  show "filter (\<lambda>y. key_value y = c) (rev xs) = filter (\<lambda>y. key_value y = c) xs"
    using assms
  proof (induction xs)
    case Nil
    then show ?case by simp
  next
    case (Cons x xs)
    then have ih: "filter (\<lambda>y. key_value y = c) (rev xs) = filter (\<lambda>y. key_value y = c) xs"
      and below: "\<forall>y \<in> set xs. key_value y < key_value x" by simp_all
    show ?case
    proof (cases "key_value x = c")
      case True
      then have "filter (\<lambda>y. key_value y = c) xs = []"
        using below by (auto simp: filter_empty_conv)
      then show ?thesis using True ih by simp
    next
      case False
      then show ?thesis using ih by simp
    qed
  qed
qed

lemma listsort_sorted_stable:
  assumes nn: "\<forall>q \<in> set ps. fst q \<noteq> NaN"
  shows "sorted (map key_value (listsort ps))
    \<and> (\<forall>c. filter (\<lambda>y. key_value y = c) (listsort ps) = filter (\<lambda>y. key_value y = c) ps)"
proof (cases ps)
  case Nil
  then show ?thesis by (simp add: listsort_def)
next
  case (Cons p qs)
  note ps = Cons
  show ?thesis
  proof (cases qs)
    case Nil
    then show ?thesis using ps by (simp add: listsort_def)
  next
    case (Cons q rs)
    have pn: "fst p \<noteq> NaN" "fst q \<noteq> NaN" "\<forall>x \<in> set rs. fst x \<noteq> NaN"
      using nn ps Cons by simp_all
    obtain n d where cr: "count_run ps = (n, d)" by (cases "count_run ps")
    define run where "run = (if d then rev (take n ps) else take n ps)"
    have ls: "listsort ps = binarysort run (drop n ps)"
      using ps Cons cr by (simp add: listsort_def run_def)
    have run_ok: "sorted (map key_value run)
        \<and> (\<forall>c. filter (\<lambda>y. key_value y = c) run = filter (\<lambda>y. key_value y = c) (take n ps))"
    proof (cases "fval_lt (fst q) (fst p)")
      case True
      then have n: "n = 2 + run_desc q rs" and d: "d" using cr ps Cons by simp_all
      have lt: "key_value q < key_value p" using True pn by (simp add: fval_lt_key_value)
      have tail: "sorted_wrt (\<lambda>a b. key_value b < key_value a) (q # take (run_desc q rs) rs)"
        using run_desc_strict pn by blast
      then have "\<forall>y \<in> set (take (run_desc q rs) rs). key_value y < key_value q" by simp
      then have "\<forall>y \<in> set (q # take (run_desc q rs) rs). key_value y < key_value p"
        using lt by auto
      then have "sorted_wrt (\<lambda>a b. key_value b < key_value a) (p # q # take (run_desc q rs) rs)"
        using tail by simp
      moreover have "take n ps = p # q # take (run_desc q rs) rs"
        using n ps Cons by simp
      ultimately have "sorted_wrt (\<lambda>a b. key_value b < key_value a) (take n ps)" by simp
      from strict_desc_rev [OF this] show ?thesis using d by (simp add: run_def)
    next
      case False
      then have n: "n = 2 + run_asc q rs" and d: "\<not> d" using cr ps Cons by simp_all
      have le: "key_value p \<le> key_value q" using False pn by (simp add: fval_lt_key_value)
      have tail: "sorted (map key_value (q # take (run_asc q rs) rs))"
        using run_asc_sorted pn by blast
      have "take n ps = p # q # take (run_asc q rs) rs"
        using n ps Cons by simp
      then have "sorted (map key_value (take n ps))" using tail le by auto
      then show ?thesis using d by (simp add: run_def)
    qed
    have "set run = set (take n ps)" by (simp add: run_def)
    then have "set (run @ drop n ps) = set ps"
      by (metis append_take_drop_id set_append)
    then have nn': "\<forall>x \<in> set (run @ drop n ps). fst x \<noteq> NaN" using nn by simp
    from binarysort_sorted_stable [OF _ nn'] run_ok
    have r1: "sorted (map key_value (binarysort run (drop n ps)))"
      and r2: "\<And>c. filter (\<lambda>y. key_value y = c) (binarysort run (drop n ps))
                 = filter (\<lambda>y. key_value y = c) (run @ drop n ps)"
      by blast+
    have "filter (\<lambda>y. key_value y = c) (run @ drop n ps) = filter (\<lambda>y. key_value y = c) ps" for c
    proof -
      have "filter (\<lambda>y. key_value y = c) (run @ drop n ps)
              = filter (\<lambda>y. key_value y = c) (take n ps) @ filter (\<lambda>y. key_value y = c) (drop n ps)"
        using run_ok by simp
      also have "\<dots> = filter (\<lambda>y. key_value y = c) ps"
        by (metis append_take_drop_id filter_append)
      finally show ?thesis .
    qed
    then show ?thesis unfolding ls using r1 r2 by simp
  qed
qed

lemma listsort_sort_key:
  assumes "\<forall>q \<in> set ps. fst q \<noteq> NaN"
  shows "listsort ps = sort_key key_value ps"
proof (rule properties_for_sort_key [symmetric])
  show "mset (listsort ps) = mset ps" by (rule mset_listsort)
  show "sorted (map key_value (listsort ps))"
    using listsort_sorted_stable [OF assms] by blast
  fix k assume "k \<in> set (listsort ps)"
  have "filter (\<lambda>y. key_value y = key_value k) (listsort ps) = filter (\<lambda>y. key_value y = key_value k) ps"
    using listsort_sorted_stable [OF assms] by blast
  then show "filter (\<lambda>x. key_value k = key_value x) (listsort ps) = filter (\<lambda>x. key_value k = key_value x) ps"
    by (simp add: eq_commute)
qed

text \<open>With a \<open>nan\<close> key the outcome is the algorithm's, not an order: the keys
  \<open>[1, nan, 0, 2]\<close> sorted with \<^verbatim>\<open>reverse=True\<close> come out as \<open>[nan, 2, 1, 0]\<close>.\<close>

lemma listsort_nan_example:
  "map fst (rev (listsort (rev [(Num 1, ()), (NaN, ()), (Num 0, ()), (Num 2, ())])))
     = [NaN, Num 2, Num 1, Num 0]"
  by code_simp


lemma insort_key_map:
  "insort_key f (g x) (map g xs) = map g (insort_key (\<lambda>x. f (g x)) x xs)"
  by (induction xs) auto

lemma sort_key_map:
  "sort_key f (map g xs) = map g (sort_key (\<lambda>x. f (g x)) xs)"
  by (induction xs) (auto simp: sort_key_def insort_key_map)

lemma insort_key_agree:
  "\<forall>y \<in> set (x # ys). f y = g y \<Longrightarrow> insort_key f x ys = insort_key g x ys"
  by (induction ys) auto

lemma sort_key_agree:
  "\<forall>y \<in> set ys. f y = g y \<Longrightarrow> sort_key f ys = sort_key g ys"
proof (induction ys)
  case Nil
  then show ?case by simp
next
  case (Cons y ys)
  then have ih: "sort_key f ys = sort_key g ys" by simp
  have "\<forall>z \<in> set (y # sort_key g ys). f z = g z" using Cons.prems by simp
  then have "insort_key f y (sort_key g ys) = insort_key g y (sort_key g ys)"
    by (rule insort_key_agree)
  then show ?case using ih by (simp add: sort_key_def)
qed

lemma py_sorted_reverse_char:
  assumes "\<forall>x \<in> set xs. \<exists>r. key x = Inr (Num r)"
  shows "py_sorted_reverse key xs = Inr (rev (sort_key (\<lambda>x. score_value (key x)) (rev xs)))"
proof -
  have tot: "\<forall>x \<in> set xs. \<exists>y. key x = Inr y" using assms by blast
  let ?g = "\<lambda>x. (projr (key x), x)"
  have ks: "map_err key xs = Inr (map (\<lambda>x. projr (key x)) xs)"
    using map_err_total [OF tot] .
  have zip: "zip (map (\<lambda>x. projr (key x)) xs) xs = map ?g xs"
    by (induction xs) auto
  have nonan: "\<forall>q \<in> set (map ?g (rev xs)). fst q \<noteq> NaN"
    using assms by auto
  have "listsort (map ?g (rev xs)) = sort_key key_value (map ?g (rev xs))"
    using listsort_sort_key [OF nonan] .
  also have "\<dots> = map ?g (sort_key (\<lambda>x. score_value (Inr (projr (key x)))) (rev xs))"
    by (simp add: sort_key_map key_value_def)
  finally have st: "listsort (map ?g (rev xs))
          = map ?g (sort_key (\<lambda>x. score_value (Inr (projr (key x)))) (rev xs))" .
  have cong: "sort_key (\<lambda>x. score_value (Inr (projr (key x)))) (rev xs)
               = sort_key (\<lambda>x. score_value (key x)) (rev xs)"
    by (rule sort_key_agree) (use assms in auto)
  show ?thesis
    unfolding py_sorted_reverse_def ks
    by (simp add: zip st cong rev_map o_def)
qed

text \<open>
  Where the selected scoring function gives every hypothesis of the input a number (it
  raises no exception and no score is \<open>nan\<close>), \<open>sort_hyps\<close> returns a permutation of
  the input in descending order of the scores, and it is stable: the hypotheses of any
  one score come out in the relative order in which they went in. An example with a
  tie follows.
\<close>

lemma sort_hyps_descending_stable:
  assumes "\<forall>h \<in> set hyps. \<exists>r. score_func env stop_token_id S W P h = Inr (Num r)"
  shows "\<exists>out. sort_hyps env hyps stop_token_id S W P = Inr out
           \<and> mset out = mset hyps
           \<and> sorted_wrt (\<lambda>a b. \<exists>x y. score_func env stop_token_id S W P a = Inr (Num x)
                                   \<and> score_func env stop_token_id S W P b = Inr (Num y)
                                   \<and> y \<le> x) out
           \<and> (\<forall>k. filter (\<lambda>h. score_func env stop_token_id S W P h = Inr (Num k)) out
                  = filter (\<lambda>h. score_func env stop_token_id S W P h = Inr (Num k)) hyps)"
proof -
  let ?sf = "score_func env stop_token_id S W P"
  let ?K = "\<lambda>h. score_value (?sf h)"
  let ?out = "rev (sort_key ?K (rev hyps))"
  have run: "sort_hyps env hyps stop_token_id S W P = Inr ?out"
    unfolding sort_hyps_def using py_sorted_reverse_char [OF assms] .
  have perm: "mset ?out = mset hyps" by simp
  have setout: "set ?out = set hyps" by simp
  have "sorted (map ?K (sort_key ?K (rev hyps)))" by (rule sorted_sort_key)
  then have "sorted_wrt (\<lambda>a b. ?K a \<le> ?K b) (sort_key ?K (rev hyps))"
    by (simp add: sorted_wrt_map)
  then have desc: "sorted_wrt (\<lambda>a b. ?K b \<le> ?K a) ?out"
    by (simp add: sorted_wrt_rev)
  have desc': "sorted_wrt (\<lambda>a b. \<exists>x y. ?sf a = Inr (Num x) \<and> ?sf b = Inr (Num y) \<and> y \<le> x) ?out"
  proof (rule sorted_wrt_mono_rel [OF _ desc])
    fix a b assume "a \<in> set ?out" "b \<in> set ?out" and le: "?K b \<le> ?K a"
    then obtain x y where "?sf a = Inr (Num x)" "?sf b = Inr (Num y)"
      using assms setout by blast
    then show "\<exists>x y. ?sf a = Inr (Num x) \<and> ?sf b = Inr (Num y) \<and> y \<le> x"
      using le by (simp add: score_value_def)
  qed
  have stable: "filter (\<lambda>h. ?sf h = Inr (Num k)) ?out = filter (\<lambda>h. ?sf h = Inr (Num k)) hyps"
    for k
  proof -
    have eq: "\<And>xs. set xs = set hyps \<Longrightarrow>
        filter (\<lambda>h. ?sf h = Inr (Num k)) xs = filter (\<lambda>h. ?K h = k) xs"
    proof (rule filter_cong [OF refl])
      fix xs h assume "set xs = set hyps" "h \<in> set xs"
      then obtain r where "?sf h = Inr (Num r)" using assms by blast
      then show "(?sf h = Inr (Num k)) = (?K h = k)" by (simp add: score_value_def)
    qed
    have "filter (\<lambda>h. ?K h = k) ?out = rev (filter (\<lambda>h. ?K h = k) (sort_key ?K (rev hyps)))"
      by (simp add: rev_filter)
    also have "\<dots> = rev (filter (\<lambda>h. ?K h = k) (rev hyps))"
      by (simp only: sort_key_stable)
    also have "\<dots> = filter (\<lambda>h. ?K h = k) hyps" by (simp add: rev_filter)
    finally show ?thesis using eq [OF setout] eq [OF refl] by simp
  qed
  show ?thesis using run perm desc' stable by blast
qed

lemma sort_hyps_stable_example:
  "score_func (env0 2 []) 3 {2, 5} {10} {11} (example_hyp [2, 21] [0, - 2]) = Inr (Num (- 1))
   \<and> score_func (env0 2 []) 3 {2, 5} {10} {11} (example_hyp [2, 22] [0, - 1])
       = Inr (Num (- (1 / 2)))
   \<and> score_func (env0 2 []) 3 {2, 5} {10} {11} (example_hyp [2, 23] [0, - 2]) = Inr (Num (- 1))
   \<and> sort_hyps (env0 2 []) [example_hyp [2, 21] [0, - 2], example_hyp [2, 22] [0, - 1],
                example_hyp [2, 23] [0, - 2]] 3 {2, 5} {10} {11}
      = Inr [example_hyp [2, 22] [0, - 1], example_hyp [2, 21] [0, - 2],
             example_hyp [2, 23] [0, - 2]]
   \<and> filter (\<lambda>h. score_func (env0 2 []) 3 {2, 5} {10} {11} h = Inr (Num (- 1)))
        [example_hyp [2, 22] [0, - 1], example_hyp [2, 21] [0, - 2],
             example_hyp [2, 23] [0, - 2]]
      = filter (\<lambda>h. score_func (env0 2 []) 3 {2, 5} {10} {11} h = Inr (Num (- 1)))
        [example_hyp [2, 21] [0, - 2], example_hyp [2, 22] [0, - 1],
                example_hyp [2, 23] [0, - 2]]"
proof -
  let ?sf = "score_func (env0 2 []) 3 {2, 5} {10} {11}"
  let ?hyps = "[example_hyp [2, 21] [0, - 2], example_hyp [2, 22] [0, - 1],
                example_hyp [2, 23] [0, - 2]]"
  have s1: "?sf (example_hyp [2, 21] [0, - 2]) = Inr (Num (- 1))"
    by (simp add: score_func_def env0_def example_hyp_def avg_log_prob_def
        has_unknown_token_def latest_token_def)
  have s2: "?sf (example_hyp [2, 22] [0, - 1]) = Inr (Num (- (1 / 2)))"
    by (simp add: score_func_def env0_def example_hyp_def avg_log_prob_def
        has_unknown_token_def latest_token_def)
  have s3: "?sf (example_hyp [2, 23] [0, - 2]) = Inr (Num (- 1))"
    by (simp add: score_func_def env0_def example_hyp_def avg_log_prob_def
        has_unknown_token_def latest_token_def)
  have prem: "\<forall>h \<in> set ?hyps. \<exists>r. ?sf h = Inr (Num r)"
    using s1 s2 s3 by simp
  have val: "sort_hyps (env0 2 []) ?hyps 3 {2, 5} {10} {11}
      = Inr [example_hyp [2, 22] [0, - 1], example_hyp [2, 21] [0, - 2],
             example_hyp [2, 23] [0, - 2]]"
    unfolding sort_hyps_def py_sorted_reverse_def
    by (simp add: s1 s2 s3 listsort_def bisect.simps Let_def)
  from sort_hyps_descending_stable [OF prem] val
  have "filter (\<lambda>h. ?sf h = Inr (Num (- 1)))
        [example_hyp [2, 22] [0, - 1], example_hyp [2, 21] [0, - 2],
             example_hyp [2, 23] [0, - 2]]
      = filter (\<lambda>h. ?sf h = Inr (Num (- 1))) ?hyps"
    by auto
  with s1 s2 s3 val show ?thesis by blast
qed

text \<open>
  C7. \<open>sort_hyps\<close> is to return the hypotheses in descending order of the selected
  score, ties in input order (its docstring: "sorted by descending average log
  probability"). In smart mode it does not on the input below. The hypothesis with
  tokens \<open>[2, 10]\<close> (a stopword after the start token) scores \<open>nan\<close>; standing between
  hypotheses of scores \<open>-15/8\<close> and \<open>-5/8\<close> it makes every comparison false, the list
  counts as sorted already and comes back as it went in: the score \<open>-15/8\<close> before the
  score \<open>-5/8\<close>.
\<close>

theorem sort_hyps_nan_not_descending:
  "sort_hyps ((env0 2 [])\<lparr>smart_decode := True\<rparr>)
     [example_hyp [2, 21] [0, - 3], example_hyp [2, 10] [0, - 1], example_hyp [2, 22] [0, - 1]]
     3 {2, 5} {10} {11}
   = Inr [example_hyp [2, 21] [0, - 3], example_hyp [2, 10] [0, - 1],
          example_hyp [2, 22] [0, - 1]]
   \<and> score_func ((env0 2 [])\<lparr>smart_decode := True\<rparr>) 3 {2, 5} {10} {11}
        (example_hyp [2, 21] [0, - 3]) = Inr (Num (- (15 / 8)))
   \<and> score_func ((env0 2 [])\<lparr>smart_decode := True\<rparr>) 3 {2, 5} {10} {11}
        (example_hyp [2, 10] [0, - 1]) = Inr NaN
   \<and> score_func ((env0 2 [])\<lparr>smart_decode := True\<rparr>) 3 {2, 5} {10} {11}
        (example_hyp [2, 22] [0, - 1]) = Inr (Num (- (5 / 8)))"
proof -
  let ?env = "(env0 2 [])\<lparr>smart_decode := True\<rparr>"
  have s1: "score_func ?env 3 {2, 5} {10} {11} (example_hyp [2, 21] [0, - 3]) = Inr (Num (- (15 / 8)))"
    by (simp add: score_func_def env0_def example_hyp_def score_def has_unknown_token_def
        latest_token_def smart_avg_log_prob_def np_dot_def np_normalize_def np_mean_def
        cov_loss_def np_minimum_def np_iadd_def repeated_n_gram_loss_def
        repeated_n_gram_loss_n_def upt_rec)
  have s2: "score_func ?env 3 {2, 5} {10} {11} (example_hyp [2, 10] [0, - 1]) = Inr NaN"
    by (simp add: score_func_def env0_def example_hyp_def score_def has_unknown_token_def
        latest_token_def smart_avg_log_prob_def np_dot_def np_normalize_def np_mean_def
        cov_loss_def np_minimum_def np_iadd_def repeated_n_gram_loss_def
        repeated_n_gram_loss_n_def upt_rec)
  have s3: "score_func ?env 3 {2, 5} {10} {11} (example_hyp [2, 22] [0, - 1]) = Inr (Num (- (5 / 8)))"
    by (simp add: score_func_def env0_def example_hyp_def score_def has_unknown_token_def
        latest_token_def smart_avg_log_prob_def np_dot_def np_normalize_def np_mean_def
        cov_loss_def np_minimum_def np_iadd_def repeated_n_gram_loss_def
        repeated_n_gram_loss_n_def upt_rec)
  have "sort_hyps ?env
     [example_hyp [2, 21] [0, - 3], example_hyp [2, 10] [0, - 1], example_hyp [2, 22] [0, - 1]]
     3 {2, 5} {10} {11}
   = Inr [example_hyp [2, 21] [0, - 3], example_hyp [2, 10] [0, - 1],
          example_hyp [2, 22] [0, - 1]]"
    unfolding sort_hyps_def py_sorted_reverse_def
    by (simp add: s1 s2 s3 listsort_def bisect.simps Let_def)
  then show ?thesis using s1 s2 s3 by blast
qed

subsection \<open>run_beam_search\<close>

lemma py_nth_Inr: "py_nth xs i = Inr x \<longleftrightarrow> i < length xs \<and> x = xs ! i"
  by (auto simp: py_nth_def)













lemma replicate_2: "replicate 2 x = [x, x]"
  by (simp add: numeral_2_eq_2)






text \<open>
  C1. \<open>run_beam_search\<close> is to return the top-ranked Hypothesis and its score as a pair.
  On the search below (the stop token is the best candidate at every step) it returns
  the Hypothesis alone, and unpacking that value into \<open>best_hyp, best_score\<close>, as
  \<^verbatim>\<open>BeamSearchDecoder.decode\<close> does, raises TypeError.
\<close>

theorem run_beam_search_returns_hypothesis_only:
  "run_beam_search (env0 3 [3, 22]) =
     Inr (PyHypothesis \<lparr>tokens = [2, 3], log_probs = [0, - 1], state = (),
          attn_dists = [[1 / 2, 1 / 2]], p_gens = [1], coverage = [1 / 2, 1 / 2]\<rparr>)
   \<and> bind_err (run_beam_search (env0 3 [3, 22])) unpack_pair = Inl TypeError"
proof -
  have "run_beam_search (env0 3 [3, 22]) =
     Inr (PyHypothesis \<lparr>tokens = [2, 3], log_probs = [0, - 1], state = (),
          attn_dists = [[1 / 2, 1 / 2]], p_gens = [1], coverage = [1 / 2, 1 / 2]\<rparr>)"
    by (simp add: run_beam_search_def env0_def beam_loop.simps Let_def Hypothesis_init_def
        upt_rec py_nth_def np_nth2_def extend_def sort_hyps_def py_sorted_reverse_def
        listsort_def bisect.simps Let_def score_func_def avg_log_prob_def has_unknown_token_def
        latest_token_def vocab0_def replicate_2)
  then show ?thesis by simp
qed

subsection \<open>repeated_n_gram_loss\<close>

lemma n_gram_loop_range:
  "n_gram_loop n ts [k ..< m] seen =
     (if (\<exists>j. k \<le> j \<and> j < m \<and> n_gram_at n ts j \<in> seen)
         \<or> (\<exists>i j. k \<le> i \<and> i < j \<and> j < m \<and> n_gram_at n ts i = n_gram_at n ts j)
      then 10 ^ 6 else 0)"
proof (induction "m - k" arbitrary: k seen)
  case 0
  then show ?case by simp
next
  case (Suc d)
  then have km: "k < m" and d: "d = m - Suc k" by simp_all
  have up: "[k ..< m] = k # [Suc k ..< m]"
    using km by (simp add: upt_conv_Cons)
  show ?case
  proof (cases "n_gram_at n ts k \<in> seen")
    case True
    then show ?thesis using km up by auto
  next
    case False
    let ?seen = "insert (n_gram_at n ts k) seen"
    have step: "n_gram_loop n ts [k ..< m] seen = n_gram_loop n ts [Suc k ..< m] ?seen"
      using False up by simp
    have ih: "n_gram_loop n ts [Suc k ..< m] ?seen =
        (if (\<exists>j. Suc k \<le> j \<and> j < m \<and> n_gram_at n ts j \<in> ?seen)
            \<or> (\<exists>i j. Suc k \<le> i \<and> i < j \<and> j < m \<and> n_gram_at n ts i = n_gram_at n ts j)
         then 10 ^ 6 else 0)"
      using Suc.hyps(1)[OF d] .
    have eq: "((\<exists>j. Suc k \<le> j \<and> j < m \<and> n_gram_at n ts j \<in> ?seen)
            \<or> (\<exists>i j. Suc k \<le> i \<and> i < j \<and> j < m \<and> n_gram_at n ts i = n_gram_at n ts j))
          \<longleftrightarrow> ((\<exists>j. k \<le> j \<and> j < m \<and> n_gram_at n ts j \<in> seen)
            \<or> (\<exists>i j. k \<le> i \<and> i < j \<and> j < m \<and> n_gram_at n ts i = n_gram_at n ts j))"
      (is "?L \<longleftrightarrow> ?R")
    proof
      assume ?L
      then show ?R
      proof (elim disjE exE conjE)
        fix j assume j: "Suc k \<le> j" "j < m" "n_gram_at n ts j \<in> ?seen"
        show ?R
        proof (cases "n_gram_at n ts j = n_gram_at n ts k")
          case True
          then have "k \<le> k \<and> k < j \<and> j < m \<and> n_gram_at n ts k = n_gram_at n ts j"
            using j by simp
          then show ?thesis by blast
        next
          case False
          then have "k \<le> j \<and> j < m \<and> n_gram_at n ts j \<in> seen" using j by simp
          then show ?thesis by blast
        qed
      next
        fix i j assume "Suc k \<le> i" "i < j" "j < m" "n_gram_at n ts i = n_gram_at n ts j"
        then have "k \<le> i \<and> i < j \<and> j < m \<and> n_gram_at n ts i = n_gram_at n ts j" by simp
        then show ?R by blast
      qed
    next
      assume ?R
      then show ?L
      proof (elim disjE exE conjE)
        fix j assume j: "k \<le> j" "j < m" "n_gram_at n ts j \<in> seen"
        then have "j \<noteq> k" using False by auto
        then have "Suc k \<le> j \<and> j < m \<and> n_gram_at n ts j \<in> ?seen" using j by simp
        then show ?L by blast
      next
        fix i j assume ij: "k \<le> i" "i < j" "j < m" "n_gram_at n ts i = n_gram_at n ts j"
        show ?L
        proof (cases "i = k")
          case True
          then have "Suc k \<le> j \<and> j < m \<and> n_gram_at n ts j \<in> ?seen" using ij by simp
          then show ?thesis by blast
        next
          case False
          then have "Suc k \<le> i \<and> i < j \<and> j < m \<and> n_gram_at n ts i = n_gram_at n ts j"
            using ij by simp
          then show ?thesis by blast
        qed
      qed
    qed
    show ?thesis unfolding step ih eq ..
  qed
qed

lemma repeated_n_gram_loss_n_char:
  "repeated_n_gram_loss_n n ts = (if has_repeated_n_gram n ts then 10 ^ 6 else 0)"
proof -
  have "(\<exists>i j. 0 \<le> i \<and> i < j \<and> j < length ts + 1 - n \<and> n_gram_at n ts i = n_gram_at n ts j)
        \<longleftrightarrow> has_repeated_n_gram n ts"
  proof -
    have "\<And>j. j < length ts + 1 - n \<longleftrightarrow> j + n \<le> length ts" by arith
    then show ?thesis unfolding has_repeated_n_gram_def by simp
  qed
  then show ?thesis
    unfolding repeated_n_gram_loss_n_def n_gram_loop_range by simp
qed

lemma three_gram_tokens:
  assumes "i + 3 \<le> length ts"
  shows "n_gram_at 3 ts i = [ts ! i, ts ! (i + 1), ts ! (i + 2)]"
proof (rule nth_equalityI)
  show "length (n_gram_at 3 ts i) = length [ts ! i, ts ! (i + 1), ts ! (i + 2)]"
    using assms by (simp add: n_gram_at_def)
next
  fix k assume "k < length (n_gram_at 3 ts i)"
  then have "k < 3" by (simp add: n_gram_at_def)
  then have "k = 0 \<or> k = 1 \<or> k = 2" by arith
  then show "n_gram_at 3 ts i ! k = [ts ! i, ts ! (i + 1), ts ! (i + 2)] ! k"
    using assms by (auto simp: n_gram_at_def)
qed

lemma has_repeated_3_gram_tokens: "has_repeated_n_gram 3 ts \<longleftrightarrow> repeated_3_gram ts"
proof -
  have "n_gram_at 3 ts i = n_gram_at 3 ts j \<longleftrightarrow>
          ts ! i = ts ! j \<and> ts ! (i + 1) = ts ! (j + 1) \<and> ts ! (i + 2) = ts ! (j + 2)"
    if "i < j" "j + 3 \<le> length ts" for i j
    using that by (simp add: three_gram_tokens)
  then show ?thesis
    unfolding has_repeated_n_gram_def repeated_3_gram_def by blast
qed

text \<open>
  C6. For every token sequence, \<open>repeated_n_gram_loss\<close> is exactly 0 when no contiguous
  3-token subsequence occurs twice and exactly \<open>10^6\<close> when one does; tokens
  \<open>[1,2,3,4,2,3,4]\<close> give \<open>10^6\<close> and tokens \<open>[1,2,3,4,5,6]\<close> give 0. A repeated
  single token (\<open>[1,2,1,3,4,5]\<close>) or a repeated pair (\<open>[1,2,3,1,2,4]\<close>) is no repeat
  of three tokens and gives 0.
\<close>

theorem repeated_n_gram_loss_correct:
  "repeated_n_gram_loss ts = (if repeated_3_gram ts then 10 ^ 6 else 0)
   \<and> repeated_n_gram_loss [1, 2, 3, 4, 2, 3, 4] = 10 ^ 6
   \<and> repeated_n_gram_loss [1, 2, 3, 4, 5, 6] = 0
   \<and> repeated_n_gram_loss [1, 2, 1, 3, 4, 5] = 0
   \<and> repeated_n_gram_loss [1, 2, 3, 1, 2, 4] = 0"
proof (intro conjI)
  show "repeated_n_gram_loss ts = (if repeated_3_gram ts then 10 ^ 6 else 0)"
    unfolding repeated_n_gram_loss_def repeated_n_gram_loss_n_char has_repeated_3_gram_tokens ..
  show "repeated_n_gram_loss [1, 2, 3, 4, 2, 3, 4] = 10 ^ 6"
    by (simp add: repeated_n_gram_loss_def repeated_n_gram_loss_n_def n_gram_at_def upt_rec)
  show "repeated_n_gram_loss [1, 2, 3, 4, 5, 6] = 0"
    by (simp add: repeated_n_gram_loss_def repeated_n_gram_loss_n_def n_gram_at_def upt_rec)
  show "repeated_n_gram_loss [1, 2, 1, 3, 4, 5] = 0"
    by (simp add: repeated_n_gram_loss_def repeated_n_gram_loss_n_def n_gram_at_def upt_rec)
  show "repeated_n_gram_loss [1, 2, 3, 1, 2, 4] = 0"
    by (simp add: repeated_n_gram_loss_def repeated_n_gram_loss_n_def n_gram_at_def upt_rec)
qed

end
